theory Spec2Isabelle
  imports Complex_Main "HOL-Library.AList"
begin

section \<open>Data model\<close>

text \<open>
  A Python \<open>bytes\<close> value is a list of 8-bit characters; text is a \<open>string\<close>.
  A dict is an association list kept in insertion order: \<open>AList.update\<close> replaces the
  value of a key in place and appends a new key at the end, as assignment to a dict does.
\<close>

type_synonym bytes = "char list"

text \<open>
  The values a reference store holds: \<open>bytes\<close> (metadata documents, inlined chunks),
  the three-element list \<open>[url, offset, size]\<close>, and \<open>str\<close> (values read back from JSON,
  and the values of the serialised output). Offsets and sizes come from unsigned file
  addresses, hence \<open>nat\<close>.
\<close>

datatype entry = Bytes bytes | Ref string nat nat | Str string

type_synonym store = "(string \<times> entry) list"

datatype error =
    UnsupportedFilters string
  | AmbiguousScales string nat nat
  | MetadataError
  | TypeError
  | IndexError
  | KeyError string
  | ZeroDivisionError
  | AssertionError
  | UnicodeDecodeError
  | AttributeError
  | IOError

subsection \<open>Text helpers\<close>

definition digit_char :: "nat \<Rightarrow> char" where
  "digit_char d = char_of (48 + d)"

text \<open>Python's \<open>str(n)\<close> for a non-negative integer: its decimal digits.\<close>

function str_nat :: "nat \<Rightarrow> string" where
  "str_nat n = (if n < 10 then [digit_char n] else str_nat (n div 10) @ [digit_char (n mod 10)])"
  by pat_completeness auto
termination
  by (relation "measure (\<lambda>n. n)") auto

declare str_nat.simps [simp del]

text \<open>\<open>sep.join(parts)\<close>.\<close>

fun join :: "string \<Rightarrow> string list \<Rightarrow> string" where
  "join sep [] = []"
| "join sep [x] = x"
| "join sep (x # y # ys) = x @ sep @ join sep (y # ys)"

text \<open>\<open>s.startswith(p)\<close>.\<close>

definition startswith :: "string \<Rightarrow> string \<Rightarrow> bool" where
  "startswith s p = (take (length p) s = p)"

text \<open>\<open>data.decode('ascii')\<close> succeeds exactly when every byte is below 128.\<close>

definition is_ascii :: "bytes \<Rightarrow> bool" where
  "is_ascii data = list_all (\<lambda>c. (of_char c :: nat) < 128) data"

subsection \<open>Base64 (the standard alphabet, with padding)\<close>

definition b64chars :: string where
  "b64chars = ''ABCDEFGHIJKLMNOPQRSTUVWXYZabcdefghijklmnopqrstuvwxyz0123456789+/''"

definition b64char :: "nat \<Rightarrow> char" where
  "b64char i = b64chars ! i"

text \<open>\<open>base64.b64encode\<close>: three bytes become four characters of the alphabet.\<close>

fun b64encode :: "bytes \<Rightarrow> bytes" where
  "b64encode [] = []"
| "b64encode [a] =
     [b64char (of_char a div 4), b64char ((of_char a mod 4) * 16), CHR ''='', CHR ''='']"
| "b64encode [a, b] =
     [b64char (of_char a div 4),
      b64char ((of_char a mod 4) * 16 + of_char b div 16),
      b64char ((of_char b mod 16) * 4), CHR ''='']"
| "b64encode (a # b # c # rest) =
     [b64char (of_char a div 4),
      b64char ((of_char a mod 4) * 16 + of_char b div 16),
      b64char ((of_char b mod 16) * 4 + of_char c div 64),
      b64char (of_char c mod 64)] @ b64encode rest"

fun index_of :: "'a \<Rightarrow> 'a list \<Rightarrow> nat option" where
  "index_of x [] = None"
| "index_of x (y # ys) =
     (if x = y then Some 0 else (case index_of x ys of None \<Rightarrow> None | Some i \<Rightarrow> Some (Suc i)))"

definition b64val :: "char \<Rightarrow> nat option" where
  "b64val c = index_of c b64chars"

text \<open>
  Modelled from the spec: the consumer's base64-decoding of a tagged inline value is not
  part of the source file (the reading side lives in the filesystem library). It is the
  inverse reading of the alphabet, four characters to three bytes, \<open>=\<close> padding only in
  the last group; \<open>None\<close> on anything else.
\<close>

fun b64decode :: "bytes \<Rightarrow> bytes option" where
  "b64decode [] = Some []"
| "b64decode (c1 # c2 # c3 # c4 # rest) =
     (if c3 = CHR ''='' \<and> c4 = CHR ''='' \<and> rest = [] then
        (case (b64val c1, b64val c2) of
           (Some v1, Some v2) \<Rightarrow> Some [char_of (v1 * 4 + v2 div 16)]
         | _ \<Rightarrow> None)
      else if c4 = CHR ''='' \<and> rest = [] then
        (case (b64val c1, b64val c2, b64val c3) of
           (Some v1, Some v2, Some v3) \<Rightarrow>
             Some [char_of (v1 * 4 + v2 div 16), char_of ((v2 mod 16) * 16 + v3 div 4)]
         | _ \<Rightarrow> None)
      else
        (case (b64val c1, b64val c2, b64val c3, b64val c4) of
           (Some v1, Some v2, Some v3, Some v4) \<Rightarrow>
             (case b64decode rest of
                None \<Rightarrow> None
              | Some r \<Rightarrow>
                  Some (char_of (v1 * 4 + v2 div 16) # char_of ((v2 mod 16) * 16 + v3 div 4)
                        # char_of ((v3 mod 4) * 64 + v4) # r))
         | _ \<Rightarrow> None))"
| "b64decode _ = None"

section \<open>The source file as the translator sees it\<close>

datatype layout_class = COMPACT | CONTIGUOUS | CHUNKED

text \<open>What \<open>get_chunk_info(index)\<close> returns for one stored chunk.\<close>

record chunk_blob =
  chunk_offset :: "nat list"
  byte_offset :: nat
  blob_size :: nat

text \<open>
  An attribute value after the coercion rules of \<open>_transfer_attrs\<close> (which rest on numpy):
  a text, another JSON value (rendered), or a value the attribute store refuses with
  \<open>TypeError\<close>.
\<close>

datatype attr_value = AText string | AJson string | ADims "string list" | ARefused

record h5object =
  name :: string
  attrs :: "(string \<times> attr_value) list"

text \<open>
  The properties of a dataset that the translator reads. \<open>scaleoffset\<close> is the filter's
  setting or \<open>None\<close>; \<open>shape\<close> is \<open>None\<close> for a null dataset; \<open>chunks\<close> is \<open>None\<close> for a
  contiguous one; \<open>offset\<close> and \<open>storage_size\<close> are \<open>id.get_offset()\<close> and
  \<open>id.get_storage_size()\<close>; \<open>chunk_info\<close> lists \<open>id.get_chunk_info(i)\<close> for
  \<open>i\<close> in \<open>range(id.get_num_chunks())\<close>; \<open>dims n\<close> gives the names of the dimension scales
  attached to axis \<open>n\<close>.
\<close>

record h5dataset = h5object +
  layout :: layout_class
  scaleoffset :: "nat option"
  fletcher32 :: bool
  shuffle :: bool
  compression :: "string option"
  shape :: "nat list option"
  chunks :: "nat list option"
  offset :: "nat option"
  storage_size :: nat
  chunk_info :: "chunk_blob list"
  is_scale :: bool
  dims :: "nat \<Rightarrow> string list"

datatype h5obj = Dataset h5dataset | Group h5object

text \<open>
  The file: the attributes of its root group, the objects below the root in the order
  \<open>visititems\<close> reaches them, and the bytes that \<open>seek\<close>/\<open>read\<close> deliver.
\<close>

record h5file =
  root_attrs :: "(string \<times> attr_value) list"
  objects :: "h5obj list"
  content :: bytes

text \<open>
  The array-metadata library is outside the source file. Its documents are taken as
  parameters: the group descriptor, the array descriptor of a dataset (or the error the
  library raises when it cannot describe it), and the attributes document of an
  attribute dict.
\<close>

record zarr_codec =
  enc_group :: bytes
  enc_array :: "h5dataset \<Rightarrow> error + bytes"
  enc_attrs :: "(string \<times> attr_value) list \<Rightarrow> bytes"

text \<open>The fields of a \<open>SingleHdf5ToZarr\<close> object that are fixed at construction.\<close>

record config =
  uri :: string
  xr :: bool
  spec :: int
  inline :: int

section \<open>Single-source translation\<close>

text \<open>The store path of an object: its name without the leading separators.\<close>

definition zarr_path :: "string \<Rightarrow> string" where
  "zarr_path n = dropWhile (\<lambda>c. c = CHR ''/'') n"

text \<open>The chunk key convention: \<open>path/c0.c1...cN\<close>.\<close>

definition chunk_key :: "string \<Rightarrow> nat list \<Rightarrow> string" where
  "chunk_key p coords = (if p = [] then [] else p @ ''/'') @ join ''.'' (map str_nat coords)"

text \<open>Python's truth value of \<open>h5obj.scaleoffset\<close>: \<open>None\<close> and \<open>0\<close> are false.\<close>

definition truthy :: "nat option \<Rightarrow> bool" where
  "truthy v = (case v of None \<Rightarrow> False | Some n \<Rightarrow> n \<noteq> 0)"

subsection \<open>\<open>_transfer_attrs\<close>\<close>

fun transfer_loop ::
  "bool \<Rightarrow> (string \<times> attr_value) list \<Rightarrow> (string \<times> attr_value) list
    \<Rightarrow> (string \<times> attr_value) list" where
  "transfer_loop x [] zattrs = zattrs"
| "transfer_loop x ((n, v) # rest) zattrs =
     (if n = ''REFERENCE_LIST'' \<or> n = ''DIMENSION_LIST'' then transfer_loop x rest zattrs
      else if x \<and> v = AText ''DIMENSION_SCALE'' then transfer_loop x rest zattrs
      else if v = ARefused then transfer_loop x rest zattrs
      else transfer_loop x rest (AList.update n v zattrs))"

text \<open>
  The attributes document of a node is rewritten on every assignment; nothing is written
  when no attribute is assigned.
\<close>

definition write_attrs ::
  "zarr_codec \<Rightarrow> string \<Rightarrow> (string \<times> attr_value) list \<Rightarrow> store \<Rightarrow> store" where
  "write_attrs Z key zattrs st =
     (if zattrs = [] then st else AList.update key (Bytes (enc_attrs Z zattrs)) st)"

subsection \<open>\<open>_storage_info\<close>\<close>

text \<open>\<open>[a // b for a, b in zip(chunk_offset, chunk_size)]\<close>.\<close>

fun floordivs :: "nat list \<Rightarrow> nat list \<Rightarrow> error + nat list" where
  "floordivs (a # as) (b # bs) =
     (if b = 0 then Inl ZeroDivisionError
      else (case floordivs as bs of Inl e \<Rightarrow> Inl e | Inr r \<Rightarrow> Inr (a div b # r)))"
| "floordivs _ _ = Inr []"

fun chunk_loop ::
  "nat list \<Rightarrow> chunk_blob list \<Rightarrow> (nat list \<times> nat \<times> nat) list
    \<Rightarrow> error + (nat list \<times> nat \<times> nat) list" where
  "chunk_loop chunk_size [] stinfo = Inr stinfo"
| "chunk_loop chunk_size (blob # blobs) stinfo =
     (case floordivs (chunk_offset blob) chunk_size of
        Inl e \<Rightarrow> Inl e
      | Inr key \<Rightarrow>
          chunk_loop chunk_size blobs
            (AList.update key (byte_offset blob, blob_size blob) stinfo))"

definition storage_info :: "h5dataset \<Rightarrow> error + (nat list \<times> nat \<times> nat) list" where
  "storage_info dset =
     (case shape dset of
        None \<Rightarrow> Inr []
      | Some shp \<Rightarrow>
          (case chunks dset of
             None \<Rightarrow>
               (case offset dset of
                  None \<Rightarrow> Inr []
                | Some off \<Rightarrow>
                    Inr [(replicate (if length shp = 0 then 1 else length shp) 0,
                          (off, storage_size dset))])
           | Some chunk_size \<Rightarrow>
               (if length (chunk_info dset) = 0 then Inr []
                else chunk_loop chunk_size (chunk_info dset) [])))"

subsection \<open>\<open>_get_array_dims\<close>\<close>

fun dims_loop :: "h5dataset \<Rightarrow> nat list \<Rightarrow> string list \<Rightarrow> error + string list" where
  "dims_loop dset [] ds = Inr ds"
| "dims_loop dset (n # ns) ds =
     (let num_scales = length (dims dset n) in
      if num_scales = 1 then dims_loop dset ns (ds @ [drop 1 (dims dset n ! 0)])
      else if is_scale dset then dims_loop dset ns (ds @ [drop 1 (name dset)])
      else if num_scales > 1 then Inl (AmbiguousScales (name dset) num_scales n)
      else dims_loop dset ns ds)"

definition get_array_dims :: "h5dataset \<Rightarrow> error + string list" where
  "get_array_dims dset =
     (case shape dset of
        None \<Rightarrow> Inl TypeError
      | Some shp \<Rightarrow> dims_loop dset [0 ..< length shp] [])"

subsection \<open>\<open>_translator\<close>\<close>

fun write_chunks :: "string \<Rightarrow> string \<Rightarrow> (nat list \<times> nat \<times> nat) list \<Rightarrow> store \<Rightarrow> store" where
  "write_chunks u p [] st = st"
| "write_chunks u p ((k, (off, sz)) # rest) st =
     write_chunks u p rest (AList.update (chunk_key p k) (Ref u off sz) st)"

definition unsupported_filters :: "h5dataset \<Rightarrow> bool" where
  "unsupported_filters d =
     (truthy (scaleoffset d) \<or> fletcher32 d \<or> shuffle d
      \<or> compression d = Some ''szip'' \<or> compression d = Some ''lzf'')"

definition translate_dataset :: "zarr_codec \<Rightarrow> config \<Rightarrow> h5dataset \<Rightarrow> store \<Rightarrow> error + store" where
  "translate_dataset Z cfg d st =
     (if layout d = COMPACT then Inr st
      else if unsupported_filters d then Inl (UnsupportedFilters (name d))
      else
        (case storage_info d of
           Inl e \<Rightarrow> Inl e
         | Inr cinfo \<Rightarrow>
             (if xr cfg \<and> is_scale d \<and> cinfo = [] then Inr st
              else
                (case enc_array Z d of
                   Inl e \<Rightarrow> Inl e
                 | Inr doc \<Rightarrow>
                     (let p = zarr_path (name d);
                          st1 = AList.update (p @ ''/.zarray'') (Bytes doc) st;
                          zattrs = transfer_loop (xr cfg) (attrs d) [];
                          st2 = write_attrs Z (p @ ''/.zattrs'') zattrs st1
                      in if xr cfg then
                           (case get_array_dims d of
                              Inl e \<Rightarrow> Inl e
                            | Inr adims \<Rightarrow>
                                Inr (write_chunks (uri cfg) p cinfo
                                      (write_attrs Z (p @ ''/.zattrs'')
                                         (AList.update ''_ARRAY_DIMENSIONS'' (ADims adims) zattrs)
                                         st2)))
                         else Inr (write_chunks (uri cfg) p cinfo st2))))))"

definition translate_group :: "zarr_codec \<Rightarrow> config \<Rightarrow> h5object \<Rightarrow> store \<Rightarrow> store" where
  "translate_group Z cfg g st =
     (let p = zarr_path (name g);
          st1 = AList.update (p @ ''/.zgroup'') (Bytes (enc_group Z)) st
      in write_attrs Z (p @ ''/.zattrs'') (transfer_loop (xr cfg) (attrs g) []) st1)"

fun translator :: "zarr_codec \<Rightarrow> config \<Rightarrow> h5obj \<Rightarrow> store \<Rightarrow> error + store" where
  "translator Z cfg (Dataset d) st = translate_dataset Z cfg d st"
| "translator Z cfg (Group g) st = Inr (translate_group Z cfg g st)"

text \<open>\<open>visititems\<close>: the callback runs on each object in turn; an exception ends the walk.\<close>

fun visititems :: "zarr_codec \<Rightarrow> config \<Rightarrow> h5obj list \<Rightarrow> store \<Rightarrow> error + store" where
  "visititems Z cfg [] st = Inr st"
| "visititems Z cfg (ob # obs) st =
     (case translator Z cfg ob st of
        Inl e \<Rightarrow> Inl e
      | Inr st' \<Rightarrow> visititems Z cfg obs st')"

subsection \<open>\<open>_do_inline\<close>\<close>

text \<open>\<open>seek(off)\<close> followed by \<open>read(n)\<close>.\<close>

definition read_range :: "bytes \<Rightarrow> nat \<Rightarrow> nat \<Rightarrow> bytes" where
  "read_range file off n = take n (drop off file)"

definition inline_data :: "bytes \<Rightarrow> bytes" where
  "inline_data data = (if is_ascii data then data else ''base64:'' @ b64encode data)"

fun inline_step :: "bytes \<Rightarrow> int \<Rightarrow> string \<times> entry \<Rightarrow> store \<Rightarrow> store" where
  "inline_step file threshold (k, Ref u off sz) st =
     (if int sz < threshold
      then AList.update k (Bytes (inline_data (read_range file off sz))) st
      else st)"
| "inline_step file threshold (k, v) st = st"

definition do_inline :: "bytes \<Rightarrow> int \<Rightarrow> store \<Rightarrow> store" where
  "do_inline file threshold st = fold (inline_step file threshold) st st"

subsection \<open>\<open>translate\<close>\<close>

text \<open>
  \<open>bytes.decode()\<close> reads UTF-8 strictly. A \<open>str\<close> is represented by its UTF-8 bytes, so a
  successful decode keeps the characters; \<open>utf8_run need lo hi\<close> expects \<open>need\<close>
  continuation bytes, the next one between \<open>lo\<close> and \<open>hi\<close>.
\<close>

fun utf8_run :: "nat \<Rightarrow> nat \<Rightarrow> nat \<Rightarrow> bytes \<Rightarrow> bool" where
  "utf8_run need lo hi [] = (need = 0)"
| "utf8_run need lo hi (c # cs) =
     (let b = (of_char c :: nat) in
      if need = 0 then
        (if b < 128 then utf8_run 0 128 191 cs
         else if 194 \<le> b \<and> b \<le> 223 then utf8_run 1 128 191 cs
         else if b = 224 then utf8_run 2 160 191 cs
         else if b = 237 then utf8_run 2 128 159 cs
         else if 225 \<le> b \<and> b \<le> 239 then utf8_run 2 128 191 cs
         else if b = 240 then utf8_run 3 144 191 cs
         else if 241 \<le> b \<and> b \<le> 243 then utf8_run 3 128 191 cs
         else if b = 244 then utf8_run 3 128 143 cs
         else False)
      else if lo \<le> b \<and> b \<le> hi then utf8_run (need - 1) 128 191 cs
      else False)"

fun finish_entry :: "entry \<Rightarrow> error + entry" where
  "finish_entry (Ref u off sz) = Inr (Ref ''{{u}}'' off sz)"
| "finish_entry (Bytes b) = (if utf8_run 0 128 191 b then Inr (Str b) else Inl UnicodeDecodeError)"
| "finish_entry (Str s) = Inl AttributeError"

fun finish_loop :: "store \<Rightarrow> store \<Rightarrow> error + store" where
  "finish_loop [] st = Inr st"
| "finish_loop ((k, v) # rest) st =
     (case finish_entry v of
        Inl e \<Rightarrow> Inl e
      | Inr v' \<Rightarrow> finish_loop rest (AList.update k v' st))"

datatype reference_doc = RawStore store | Version1 "(string \<times> string) list" store

definition translate :: "zarr_codec \<Rightarrow> config \<Rightarrow> h5file \<Rightarrow> error + reference_doc" where
  "translate Z cfg f =
     (let st0 = [(''.zgroup'', Bytes (enc_group Z))];
          st1 = write_attrs Z ''.zattrs'' (transfer_loop (xr cfg) (root_attrs f) []) st0
      in case visititems Z cfg (objects f) st1 of
           Inl e \<Rightarrow> Inl e
         | Inr st2 \<Rightarrow>
             (let st3 = (if inline cfg > 0 then do_inline (content f) (inline cfg) st2 else st2)
              in if spec cfg < 1 then Inr (RawStore st3)
                 else (case finish_loop st3 st3 of
                         Inl e \<Rightarrow> Inl e
                       | Inr refs \<Rightarrow> Inr (Version1 [(''u'', uri cfg)] refs))))"

subsection \<open>Reading an inline value back\<close>

text \<open>
  Modelled from the spec: the reader of an inline value is not part of the source file.
  A value that carries the prefix tag \<open>base64:\<close> is stripped of it and base64-decoded;
  any other value is taken as it stands.
\<close>

definition decode_inline :: "bytes \<Rightarrow> bytes option" where
  "decode_inline v = (if startswith v ''base64:'' then b64decode (drop 7 v) else Some v)"

section \<open>Multi-source consolidation\<close>

subsection \<open>\<open>_determine_dims\<close>\<close>

text \<open>
  The dimension tables \<open>ds.dims\<close> and \<open>ds0.dims\<close> are lists of (name, extent) in the order
  of iteration; \<open>n\<close> is \<open>len(mappers)\<close>. The generator of \<open>concat_dims\<close> looks every name of
  \<open>ds.dims\<close> up in \<open>ds0.dims\<close> and divides by the extent it finds. The true division is
  taken exactly.
\<close>

record dim_partition =
  extra_dims :: "string set"
  concat_dims :: "string set"
  same_dims :: "string set"

fun concat_loop :: "(string \<times> nat) list \<Rightarrow> (string \<times> nat) list \<Rightarrow> nat \<Rightarrow> error + string list" where
  "concat_loop [] ds0 n = Inr []"
| "concat_loop ((k, v) # rest) ds0 n =
     (case map_of ds0 k of
        None \<Rightarrow> Inl (KeyError k)
      | Some v0 \<Rightarrow>
          (if v0 = 0 then Inl ZeroDivisionError
           else (case concat_loop rest ds0 n of
                   Inl e \<Rightarrow> Inl e
                 | Inr ks \<Rightarrow> Inr (if real v / real v0 = real n then k # ks else ks))))"

definition determine_dims ::
  "(string \<times> nat) list \<Rightarrow> (string \<times> nat) list \<Rightarrow> nat \<Rightarrow> error + dim_partition" where
  "determine_dims ds ds0 n =
     (let extra = set (map fst ds) - set (map fst ds0) in
      case concat_loop ds ds0 n of
        Inl e \<Rightarrow> Inl e
      | Inr ks \<Rightarrow>
          Inr \<lparr>extra_dims = extra, concat_dims = set ks,
               same_dims = set (map fst ds) - extra - set ks\<rparr>)"

subsection \<open>\<open>_build_output\<close>\<close>

text \<open>\<open>os.path.split\<close> on a POSIX path.\<close>

definition os_path_split :: "string \<Rightarrow> string \<times> string" where
  "os_path_split p =
     (let tail = rev (takeWhile (\<lambda>c. c \<noteq> CHR ''/'') (rev p));
          head = rev (dropWhile (\<lambda>c. c \<noteq> CHR ''/'') (rev p))
      in (if head \<noteq> [] \<and> \<not> list_all (\<lambda>c. c = CHR ''/'') head
          then rev (dropWhile (\<lambda>c. c = CHR ''/'') (rev head)) else head,
          tail))"

text \<open>\<open>t[-n:]\<close> for a length \<open>n\<close>: the whole of \<open>t\<close> when \<open>n\<close> is zero or exceeds its length.\<close>

definition last_n :: "'a list \<Rightarrow> nat \<Rightarrow> 'a list" where
  "last_n t n = (if n = 0 then t else drop (length t - n) t)"

text \<open>\<open>out.update(d)\<close>.\<close>

definition update_all :: "store \<Rightarrow> store \<Rightarrow> store" where
  "update_all d out = fold (\<lambda>(k, v). AList.update k v) d out"

record variable =
  var_dims :: "string list"
  var_shape :: "nat list"

text \<open>A dataset as the alignment library presents it: its dimensions and its variables.\<close>

record dataset =
  ds_dims :: "(string \<times> nat) list"
  variables :: "(string \<times> variable) list"

definition rewritten_key :: "string \<Rightarrow> nat \<Rightarrow> string \<Rightarrow> string" where
  "rewritten_key start i part = start @ ''/'' @ str_nat i @ ''.'' @ part"

fun copy_refs :: "nat \<Rightarrow> string \<Rightarrow> bool \<Rightarrow> store \<Rightarrow> store \<Rightarrow> store" where
  "copy_refs i v same_shape [] out = out"
| "copy_refs i v same_shape ((k, e) # rest) out =
     (case os_path_split k of
        (start, part) \<Rightarrow>
          (if start \<noteq> v \<or> part = ''.zgroup'' \<or> part = ''.zarray'' \<or> part = ''.zattrs''
           then copy_refs i v same_shape rest out
           else if same_shape then copy_refs i v same_shape rest (AList.update k e out)
           else copy_refs i v same_shape rest (AList.update (rewritten_key start i part) e out)))"

fun copy_sources :: "nat \<Rightarrow> string \<Rightarrow> bool \<Rightarrow> store list \<Rightarrow> store \<Rightarrow> store" where
  "copy_sources i v same_shape [] out = out"
| "copy_sources i v same_shape (fs # fss) out =
     copy_sources (Suc i) v same_shape fss (copy_refs i v same_shape fs out)"

fun variables_loop ::
  "dataset \<Rightarrow> dataset \<Rightarrow> store list \<Rightarrow> (string \<times> variable) list \<Rightarrow> store \<Rightarrow> error + store" where
  "variables_loop ds ds0 fss [] out = Inr out"
| "variables_loop ds ds0 fss ((v, var) # rest) out =
     (if v \<in> set (map fst (ds_dims ds)) then variables_loop ds ds0 fss rest out
      else (case map_of (variables ds0) v of
              None \<Rightarrow> Inl (KeyError v)
            | Some var0 \<Rightarrow>
                (if last_n (var_dims var) (length (var_dims var0)) \<noteq> var_dims var0
                 then Inl AssertionError
                 else variables_loop ds ds0 fss rest
                        (copy_sources 0 v (var_shape var = var_shape var0) fss out))))"

fun same_loop :: "string list \<Rightarrow> store list \<Rightarrow> store \<Rightarrow> error + store" where
  "same_loop [] fss out = Inr out"
| "same_loop (d # rest) fss out =
     (case fss of
        [] \<Rightarrow> Inl IndexError
      | fs0 # _ \<Rightarrow> same_loop rest fss (update_all (filter (\<lambda>(k, v). startswith k d) fs0) out))"

text \<open>
  \<open>out0\<close> is the store after the alignment library has written the merged metadata and
  the coordinate values of the extra and concatenated dimensions; \<open>same\<close> lists
  \<open>self.same_dims\<close> in the order the set yields its elements; \<open>fss\<close> are the references of
  the sources.
\<close>

definition build_output ::
  "string list \<Rightarrow> dataset \<Rightarrow> dataset \<Rightarrow> store list \<Rightarrow> store \<Rightarrow> error + store" where
  "build_output same ds ds0 fss out0 =
     (case same_loop same fss out0 of
        Inl e \<Rightarrow> Inl e
      | Inr out \<Rightarrow> variables_loop ds ds0 fss (variables ds) out)"

subsection \<open>\<open>_consolidate\<close>\<close>

definition ascii_letters :: string where
  "ascii_letters = ''abcdefghijklmnopqrstuvwxyzABCDEFGHIJKLMNOPQRSTUVWXYZ''"

fun ref_urls :: "store \<Rightarrow> string list" where
  "ref_urls [] = []"
| "ref_urls ((k, Ref u off sz) # rest) = u # ref_urls rest"
| "ref_urls ((k, v) # rest) = ref_urls rest"

text \<open>\<open>Counter(iterable)\<close>: keys in first-seen order, each with its number of occurrences.\<close>

definition count_step :: "string \<Rightarrow> (string \<times> nat) list \<Rightarrow> (string \<times> nat) list" where
  "count_step u c = AList.update u (case map_of c u of None \<Rightarrow> 1 | Some n \<Rightarrow> Suc n) c"

definition counter :: "string list \<Rightarrow> (string \<times> nat) list" where
  "counter us = fold count_step us []"

fun templates_loop ::
  "nat \<Rightarrow> (string \<times> nat) list \<Rightarrow> int \<Rightarrow> (string \<times> string) list
    \<Rightarrow> error + (string \<times> string) list" where
  "templates_loop i [] template_count acc = Inr acc"
| "templates_loop i ((u, c) # rest) template_count acc =
     (if int c > template_count then
        (if i < length ascii_letters
         then templates_loop (Suc i) rest template_count (AList.update [ascii_letters ! i] u acc)
         else Inl IndexError)
      else templates_loop (Suc i) rest template_count acc)"

definition invert :: "(string \<times> string) list \<Rightarrow> (string \<times> string) list" where
  "invert templates = fold (\<lambda>(k, v). AList.update v k) templates []"

text \<open>
  One round of the loop of \<open>_consolidate\<close>. \<open>cat_file u start end\<close> is the range read of the
  remote filesystem.
\<close>

fun consolidate_entry ::
  "(string \<Rightarrow> nat \<Rightarrow> nat \<Rightarrow> error + bytes) \<Rightarrow> int \<Rightarrow> (string \<times> string) list \<Rightarrow> entry
    \<Rightarrow> error + entry" where
  "consolidate_entry cat_file thr tinv (Ref u off sz) =
     (if int sz < thr then
        (case cat_file u off (off + sz) of
           Inl e \<Rightarrow> Inl e
         | Inr b \<Rightarrow> Inr (Str (if is_ascii b then b else ''base64:'' @ b64encode b)))
      else (case map_of tinv u of
              Some letter \<Rightarrow> Inr (Ref (''{{'' @ letter @ ''}}'') off sz)
            | None \<Rightarrow> Inr (Ref u off sz)))"
| "consolidate_entry cat_file thr tinv (Bytes b) =
     Inr (Str (if is_ascii b then b else ''base64:'' @ b64encode b))"
| "consolidate_entry cat_file thr tinv (Str s) =
     (case s of
        [] \<Rightarrow> Inl IndexError
      | c # _ \<Rightarrow> (if map_of tinv [c] \<noteq> None then Inl TypeError else Inr (Str s)))"

fun consolidate_loop ::
  "(string \<Rightarrow> nat \<Rightarrow> nat \<Rightarrow> error + bytes) \<Rightarrow> int \<Rightarrow> (string \<times> string) list \<Rightarrow> store \<Rightarrow> store
    \<Rightarrow> error + store" where
  "consolidate_loop cat_file thr tinv [] out = Inr out"
| "consolidate_loop cat_file thr tinv ((k, v) # rest) out =
     (case consolidate_entry cat_file thr tinv v of
        Inl e \<Rightarrow> Inl e
      | Inr v' \<Rightarrow> consolidate_loop cat_file thr tinv rest (AList.update k v' out))"

definition consolidate ::
  "(string \<Rightarrow> nat \<Rightarrow> nat \<Rightarrow> error + bytes) \<Rightarrow> store \<Rightarrow> int \<Rightarrow> int \<Rightarrow> error + reference_doc" where
  "consolidate cat_file mapping inline_threashold template_count =
     (case templates_loop 0 (counter (ref_urls mapping)) template_count [] of
        Inl e \<Rightarrow> Inl e
      | Inr templates \<Rightarrow>
          (case consolidate_loop cat_file inline_threashold (invert templates) mapping [] of
             Inl e \<Rightarrow> Inl e
           | Inr out \<Rightarrow> Inr (Version1 templates out)))"


section \<open>Example inputs\<close>

definition ex_codec :: zarr_codec where
  "ex_codec =
     \<lparr>enc_group = ''zgroup'', enc_array = (\<lambda>d. Inr ''zarray''), enc_attrs = (\<lambda>a. ''zattrs'')\<rparr>"

definition ex_config :: config where
  "ex_config = \<lparr>uri = ''s3://bucket/file.h5'', xr = False, spec = 1, inline = 0\<rparr>"

definition compact_dataset :: h5dataset where
  "compact_dataset =
     \<lparr>name = ''/tiny'', attrs = [], layout = COMPACT, scaleoffset = None, fletcher32 = False,
      shuffle = False, compression = None, shape = Some [2], chunks = None, offset = None,
      storage_size = 16, chunk_info = [], is_scale = False, dims = (\<lambda>n. [])\<rparr>"

definition gzip_dataset :: h5dataset where
  "gzip_dataset =
     \<lparr>name = ''/temp'', attrs = [], layout = CHUNKED, scaleoffset = None, fletcher32 = False,
      shuffle = False, compression = Some ''gzip'', shape = Some [4], chunks = Some [2],
      offset = None, storage_size = 0,
      chunk_info = [\<lparr>chunk_offset = [0], byte_offset = 400, blob_size = 30\<rparr>,
                    \<lparr>chunk_offset = [2], byte_offset = 430, blob_size = 28\<rparr>],
      is_scale = False, dims = (\<lambda>n. [])\<rparr>"

definition gzip_shuffle_dataset :: h5dataset where
  "gzip_shuffle_dataset = gzip_dataset\<lparr>shuffle := True\<rparr>"

definition zero_chunk_dataset :: h5dataset where
  "zero_chunk_dataset =
     gzip_dataset\<lparr>chunk_info := [\<lparr>chunk_offset = [0], byte_offset = 400, blob_size = 0\<rparr>]\<rparr>"

section \<open>Auxiliary notions\<close>

text \<open>
  The metadata documents of the array at path \<open>p\<close> are the only difference between two
  stores.
\<close>

definition meta_frame :: "string \<Rightarrow> store \<Rightarrow> store \<Rightarrow> bool" where
  "meta_frame p st stm =
     (fst ` set stm \<subseteq> fst ` set st \<union> {p @ ''/.zarray'', p @ ''/.zattrs''}
      \<and> (\<forall>k. k \<noteq> p @ ''/.zarray'' \<and> k \<noteq> p @ ''/.zattrs'' \<longrightarrow> map_of stm k = map_of st k)
      \<and> (distinct (map fst st) \<longrightarrow> distinct (map fst stm)))"

definition scale_dataset :: h5dataset where
  "scale_dataset =
     gzip_dataset\<lparr>shape := Some [4, 3], chunks := Some [2, 3],
       chunk_info := [\<lparr>chunk_offset = [0, 0], byte_offset = 400, blob_size = 30\<rparr>],
       dims := (\<lambda>n. if n = 0 then [''/time''] else [])\<rparr>"

definition small_refs_store :: store where
  "small_refs_store =
     [(''x/.zarray'', Bytes ''zarray''),
      (''x/0'', Ref ''s3://bucket/file.h5'' 0 3),
      (''x/1'', Ref ''s3://bucket/file.h5'' 3 200)]"

definition inline_entry :: "bytes \<Rightarrow> int \<Rightarrow> entry \<Rightarrow> entry" where
  "inline_entry file threshold v =
     (case v of
        Ref u off sz \<Rightarrow>
          (if int sz < threshold then Bytes (inline_data (read_range file off sz)) else v)
      | _ \<Rightarrow> v)"

definition binary_file :: bytes where
  "binary_file = [CHR ''a'', CHR ''b'', CHR 0xFF, CHR 0x00, CHR ''c'']"

definition six_refs :: "nat \<Rightarrow> store" where
  "six_refs sz =
     [(''v/0'', Ref ''s3://bucket/a.h5'' 0 sz), (''v/1'', Ref ''s3://bucket/a.h5'' 1000 sz),
      (''v/2'', Ref ''s3://bucket/a.h5'' 2000 sz), (''v/3'', Ref ''s3://bucket/a.h5'' 3000 sz),
      (''v/4'', Ref ''s3://bucket/a.h5'' 4000 sz), (''v/5'', Ref ''s3://bucket/a.h5'' 5000 sz)]"

definition ten_bytes :: "string \<Rightarrow> nat \<Rightarrow> nat \<Rightarrow> error + bytes" where
  "ten_bytes u start stop = Inr ''0123456789''"

definition first_seen :: "'a list \<Rightarrow> 'a list" where
  "first_seen xs = rev (remdups (rev xs))"

(*END-DEFINITIONS*)

section \<open>Properties of the single-source translator\<close>

subsection \<open>Compact layout\<close>

lemma translator_compact:
  "layout d = COMPACT \<Longrightarrow> translator Z cfg (Dataset d) st = Inr st"
  by (simp add: translate_dataset_def)

text \<open>
  C1. The claim is that a dataset with compact layout makes the translation fail. The
  source builds the exception for that case and never raises it: the callback returns,
  the dataset is left out, and \<open>translate\<close> delivers a document. Here the file holds one
  compact dataset; the store is returned as it was, and the result of \<open>translate\<close> has the
  root group only.
\<close>

theorem compact_dataset_skipped:
  "translator ex_codec ex_config (Dataset compact_dataset) [(''.zgroup'', Bytes ''zgroup'')]
     = Inr [(''.zgroup'', Bytes ''zgroup'')]
   \<and> translate ex_codec ex_config
       \<lparr>root_attrs = [], objects = [Dataset compact_dataset], content = []\<rparr>
     = Inr (Version1 [(''u'', ''s3://bucket/file.h5'')] [(''.zgroup'', Str ''zgroup'')])"
  by (simp add: translate_def translate_dataset_def ex_codec_def ex_config_def
      compact_dataset_def write_attrs_def)

subsection \<open>Storage filters\<close>

lemma visititems_error:
  "ob \<in> set obs \<Longrightarrow> (\<And>s. isl (translator Z cfg ob s)) \<Longrightarrow> isl (visititems Z cfg obs st)"
proof (induction obs arbitrary: st)
  case Nil
  then show ?case by simp
next
  case (Cons a obs)
  show ?case
  proof (cases "translator Z cfg a st")
    case (Inl e)
    then show ?thesis by simp
  next
    case (Inr st')
    with Cons.prems have "ob \<noteq> a"
      by (metis sum.disc(2))
    with Cons.prems have "ob \<in> set obs" by simp
    then have "isl (visititems Z cfg obs st')"
      using Cons.IH Cons.prems(2) by blast
    with Inr show ?thesis by simp
  qed
qed

lemma translate_error:
  assumes "\<And>s. isl (visititems Z cfg (objects f) s)"
  shows "isl (translate Z cfg f)"
proof -
  from assms obtain e where
    "visititems Z cfg (objects f)
       (write_attrs Z ''.zattrs'' (transfer_loop (xr cfg) (root_attrs f) [])
          [(''.zgroup'', Bytes (enc_group Z))]) = Inl e"
    unfolding isl_def by blast
  then show ?thesis
    by (simp add: translate_def)
qed

text \<open>
  C2, the claim as stated fails: a dataset compressed with gzip that also uses the shuffle
  filter, with no scale-offset and no checksum filter, is rejected.
\<close>

theorem gzip_with_shuffle_rejected:
  "compression gzip_shuffle_dataset = Some ''gzip''
   \<and> scaleoffset gzip_shuffle_dataset = None
   \<and> \<not> fletcher32 gzip_shuffle_dataset
   \<and> layout gzip_shuffle_dataset = CHUNKED
   \<and> translator ex_codec ex_config (Dataset gzip_shuffle_dataset) []
       = Inl (UnsupportedFilters ''/temp'')"
  by (simp add: translate_dataset_def unsupported_filters_def gzip_shuffle_dataset_def
      gzip_dataset_def)

text \<open>
  C2, amended. For a dataset whose layout is not compact: if it uses the scale-offset
  filter with a non-zero setting, the checksum filter, the shuffle filter, or szip or lzf
  compression, the callback raises the unsupported-filters error, and so does
  \<open>translate\<close> on every file that holds the dataset. If it uses none of these filters and
  is compressed with gzip or not at all, it passes: the callback returns a store whenever
  the chunk index, the metadata library and (in dimension-aware mode) the dimension lookup
  succeed.
\<close>

theorem filter_check:
  assumes "layout d \<noteq> COMPACT"
  shows "((\<exists>n. scaleoffset d = Some n \<and> 0 < n) \<or> fletcher32 d \<or> shuffle d
            \<or> compression d = Some ''szip'' \<or> compression d = Some ''lzf''
          \<longrightarrow> translator Z cfg (Dataset d) st = Inl (UnsupportedFilters (name d))
              \<and> (Dataset d \<in> set (objects f) \<longrightarrow> isl (translate Z cfg f)))
       \<and> (scaleoffset d = None \<and> \<not> fletcher32 d \<and> \<not> shuffle d
            \<and> (compression d = None \<or> compression d = Some ''gzip'')
            \<and> storage_info d = Inr cinfo \<and> enc_array Z d = Inr doc
            \<and> (xr cfg \<longrightarrow> get_array_dims d = Inr adims)
          \<longrightarrow> (\<exists>st'. translator Z cfg (Dataset d) st = Inr st'))"
proof -
  let ?bad = "(\<exists>n. scaleoffset d = Some n \<and> 0 < n) \<or> fletcher32 d \<or> shuffle d
            \<or> compression d = Some ''szip'' \<or> compression d = Some ''lzf''"
  have rejected: "translator Z cfg (Dataset d) s = Inl (UnsupportedFilters (name d))"
    if "?bad" for s
  proof -
    from that have "unsupported_filters d"
      by (auto simp add: unsupported_filters_def truthy_def)
    with assms show ?thesis by (simp add: translate_dataset_def)
  qed
  have walk: "isl (translate Z cfg f)" if u: "?bad" and m: "Dataset d \<in> set (objects f)"
  proof (rule translate_error)
    show "isl (visititems Z cfg (objects f) s)" for s
      using m
    proof (rule visititems_error)
      show "isl (translator Z cfg (Dataset d) s')" for s'
        by (simp only: rejected [OF u] sum.disc)
    qed
  qed
  have accepted: "\<exists>st'. translator Z cfg (Dataset d) st = Inr st'"
    if "scaleoffset d = None" "\<not> fletcher32 d" "\<not> shuffle d"
       "compression d = None \<or> compression d = Some ''gzip''"
       "storage_info d = Inr cinfo" "enc_array Z d = Inr doc"
       "xr cfg \<longrightarrow> get_array_dims d = Inr adims"
  proof -
    from that have "\<not> unsupported_filters d"
      by (auto simp add: unsupported_filters_def truthy_def)
    with that assms show ?thesis
      by (auto simp add: translate_dataset_def Let_def)
  qed
  show ?thesis using rejected walk accepted by blast
qed

theorem filter_check_witness:
  "translator ex_codec ex_config (Dataset gzip_shuffle_dataset) []
     = Inl (UnsupportedFilters ''/temp'')
   \<and> isl (translate ex_codec ex_config
            \<lparr>root_attrs = [], objects = [Dataset gzip_shuffle_dataset], content = []\<rparr>)
   \<and> (\<exists>st'. translator ex_codec ex_config (Dataset gzip_dataset) [] = Inr st')"
proof -
  have ne: "layout gzip_shuffle_dataset \<noteq> COMPACT" "layout gzip_dataset \<noteq> COMPACT"
    by (simp_all add: gzip_shuffle_dataset_def gzip_dataset_def)
  have info: "storage_info gzip_dataset = Inr [([0], 400, 30), ([1], 430, 28)]"
    by (simp add: storage_info_def gzip_dataset_def)
  have doc: "enc_array ex_codec gzip_dataset = Inr ''zarray''"
    by (simp add: ex_codec_def)
  have plain: "\<not> xr ex_config"
    by (simp add: ex_config_def)
  show ?thesis
    using filter_check [OF ne(1), where Z = ex_codec and cfg = ex_config and st = "[]"
        and f = "\<lparr>root_attrs = [], objects = [Dataset gzip_shuffle_dataset], content = []\<rparr>"]
      filter_check [OF ne(2), where Z = ex_codec and cfg = ex_config and st = "[]"
        and cinfo = "[([0], 400, 30), ([1], 430, 28)]" and doc = "''zarray''"]
      info doc plain
    by (simp add: gzip_shuffle_dataset_def gzip_dataset_def)
qed

section \<open>Chunk keys\<close>

subsection \<open>Decimal rendering and joining\<close>

lemma of_char_digit: "d < 10 \<Longrightarrow> (of_char (digit_char d) :: nat) = 48 + d"
  by (simp add: digit_char_def)

lemma digit_char_inj: "a < 10 \<Longrightarrow> b < 10 \<Longrightarrow> digit_char a = digit_char b \<Longrightarrow> a = b"
proof -
  assume a: "a < 10" and b: "b < 10" and e: "digit_char a = digit_char b"
  from e have "(of_char (digit_char a) :: nat) = of_char (digit_char b)" by simp
  with a b show "a = b" by (simp add: of_char_digit)
qed

lemma str_nat_chars: "c \<in> set (str_nat n) \<Longrightarrow> 48 \<le> (of_char c :: nat) \<and> (of_char c :: nat) \<le> 57"
proof (induction n rule: str_nat.induct)
  case (1 n)
  show ?case
  proof (cases "n < 10")
    case True
    with "1.prems" have "c = digit_char n" by (simp add: str_nat.simps [of n])
    with True show ?thesis by (simp add: of_char_digit)
  next
    case False
    with "1.prems" have "c \<in> set (str_nat (n div 10)) \<or> c = digit_char (n mod 10)"
      by (auto simp add: str_nat.simps [of n])
    then show ?thesis
    proof
      assume "c \<in> set (str_nat (n div 10))"
      with False "1.IH" show ?thesis by blast
    next
      assume "c = digit_char (n mod 10)"
      then show ?thesis by (simp add: of_char_digit)
    qed
  qed
qed

lemma str_nat_nonempty: "str_nat n \<noteq> []"
  by (subst str_nat.simps) simp

lemma str_nat_inj: "str_nat n = str_nat m \<Longrightarrow> n = m"
proof (induction n arbitrary: m rule: str_nat.induct)
  case (1 n)
  show ?case
  proof (cases "n < 10")
    case n: True
    show ?thesis
    proof (cases "m < 10")
      case True
      with n "1.prems" have "digit_char n = digit_char m"
        by (simp add: str_nat.simps [of n] str_nat.simps [of m])
      with n True show ?thesis by (rule digit_char_inj)
    next
      case False
      with n "1.prems" have "str_nat (m div 10) = []"
        by (simp add: str_nat.simps [of n] str_nat.simps [of m])
      then show ?thesis by (simp add: str_nat_nonempty)
    qed
  next
    case n: False
    show ?thesis
    proof (cases "m < 10")
      case True
      with n "1.prems" have "str_nat (n div 10) = []"
        by (simp add: str_nat.simps [of n] str_nat.simps [of m])
      then show ?thesis by (simp add: str_nat_nonempty)
    next
      case False
      with n "1.prems" have e: "str_nat (n div 10) = str_nat (m div 10)"
        and dg: "digit_char (n mod 10) = digit_char (m mod 10)"
        by (simp_all add: str_nat.simps [of n] str_nat.simps [of m])
      from e n have q: "n div 10 = m div 10" by (rule "1.IH" [rotated])
      from dg have r: "n mod 10 = m mod 10" by (rule digit_char_inj [rotated 2]) simp_all
      from q r show ?thesis by (metis div_mult_mod_eq)
    qed
  qed
qed

lemma str_nat_no_dot: "CHR ''.'' \<notin> set (str_nat n)"
proof
  assume "CHR ''.'' \<in> set (str_nat n)"
  then have "48 \<le> (of_char (CHR ''.'') :: nat)" by (rule str_nat_chars [THEN conjunct1])
  then show False by simp
qed

lemma join_Cons: "join sep (x # xs) = (if xs = [] then x else x @ sep @ join sep xs)"
  by (cases xs) simp_all

lemma join_empty_iff: "\<forall>x\<in>set xs. x \<noteq> [] \<Longrightarrow> join sep xs = [] \<longleftrightarrow> xs = []"
  by (cases xs) (auto simp add: join_Cons)

lemma dot_split:
  assumes "CHR ''.'' \<notin> set a" "CHR ''.'' \<notin> set b" "a @ CHR ''.'' # r = b @ CHR ''.'' # s"
  shows "a = b \<and> r = s"
proof -
  have "\<forall>x\<in>set a. x \<noteq> CHR ''.''" "\<forall>x\<in>set b. x \<noteq> CHR ''.''"
    using assms(1,2) by blast+
  then have "takeWhile (\<lambda>c. c \<noteq> CHR ''.'') (a @ CHR ''.'' # r) = a"
    and "takeWhile (\<lambda>c. c \<noteq> CHR ''.'') (b @ CHR ''.'' # s) = b"
    by (simp_all add: takeWhile_tail)
  then have "a = b" using assms(3) by simp
  with assms(3) show ?thesis by simp
qed

lemma join_inj:
  assumes "\<forall>x\<in>set xs. x \<noteq> [] \<and> CHR ''.'' \<notin> set x"
    and "\<forall>y\<in>set ys. y \<noteq> [] \<and> CHR ''.'' \<notin> set y"
    and "join ''.'' xs = join ''.'' ys"
  shows "xs = ys"
  using assms
proof (induction xs arbitrary: ys)
  case Nil
  then show ?case by (metis join.simps(1) join_empty_iff)
next
  case (Cons x xs)
  from Cons.prems have "ys \<noteq> []"
    by (metis join.simps(1) join_empty_iff list.distinct(1))
  then obtain y ys' where ys: "ys = y # ys'" by (cases ys) auto
  from Cons.prems ys have x: "x \<noteq> []" "CHR ''.'' \<notin> set x" and y: "y \<noteq> []" "CHR ''.'' \<notin> set y"
    by simp_all
  show ?case
  proof (cases "xs = []")
    case xe: True
    show ?thesis
    proof (cases "ys' = []")
      case True
      with xe Cons.prems(3) ys show ?thesis by simp
    next
      case False
      with xe Cons.prems(3) ys have "x = y @ CHR ''.'' # join ''.'' ys'"
        by (simp add: join_Cons)
      with x(2) show ?thesis by auto
    qed
  next
    case xn: False
    show ?thesis
    proof (cases "ys' = []")
      case True
      with xn Cons.prems(3) ys have "y = x @ CHR ''.'' # join ''.'' xs"
        by (simp add: join_Cons)
      with y(2) show ?thesis by auto
    next
      case False
      with xn Cons.prems(3) ys
      have "x @ CHR ''.'' # join ''.'' xs = y @ CHR ''.'' # join ''.'' ys'"
        by (simp add: join_Cons)
      with x(2) y(2) have "x = y" and j: "join ''.'' xs = join ''.'' ys'"
        using dot_split by blast+
      moreover have "xs = ys'"
        using Cons.IH [of ys'] Cons.prems(1,2) ys j by simp
      ultimately show ?thesis using ys by simp
    qed
  qed
qed

lemma coords_inj: "join ''.'' (map str_nat c) = join ''.'' (map str_nat c') \<Longrightarrow> c = c'"
proof -
  assume e: "join ''.'' (map str_nat c) = join ''.'' (map str_nat c')"
  have "map str_nat c = map str_nat c'"
    by (rule join_inj [OF _ _ e]) (auto simp add: str_nat_nonempty str_nat_no_dot)
  moreover have "inj str_nat" by (rule injI) (rule str_nat_inj)
  ultimately show "c = c'" by (simp add: inj_map_eq_map)
qed

lemma chunk_key_inj: "chunk_key p c = chunk_key p c' \<Longrightarrow> c = c'"
  by (rule coords_inj) (simp add: chunk_key_def split: if_splits)

subsection \<open>Chunk keys and the store\<close>

lemma digit_char_values:
  "digit_char 0 = CHR ''0''" "digit_char 1 = CHR ''1''" "digit_char 2 = CHR ''2''"
  "digit_char 3 = CHR ''3''" "digit_char 4 = CHR ''4''" "digit_char 5 = CHR ''5''"
  "digit_char 6 = CHR ''6''" "digit_char 7 = CHR ''7''" "digit_char 8 = CHR ''8''"
  "digit_char 9 = CHR ''9''" "digit_char (Suc 0) = CHR ''1''"
  by code_simp+

lemma join_chars:
  "c \<in> set (join ''.'' (map str_nat cs)) \<Longrightarrow> c = CHR ''.'' \<or> (48 \<le> (of_char c :: nat) \<and> (of_char c :: nat) \<le> 57)"
proof (induction cs)
  case Nil
  then show ?case by simp
next
  case (Cons a cs)
  then show ?case
    by (auto simp add: join_Cons str_nat_chars split: if_splits)
qed

lemma chunk_key_not_meta:
  "chunk_key p c \<noteq> p @ ''/.zarray''" "chunk_key p c \<noteq> p @ ''/.zattrs''"
proof -
  let ?J = "join ''.'' (map str_nat c)"
  have z: "CHR ''z'' \<notin> set ?J" and s: "CHR ''/'' \<notin> set ?J"
    using join_chars [of "CHR ''z''" c] join_chars [of "CHR ''/''" c] by auto
  have "?J \<noteq> ''.zarray''" "?J \<noteq> ''.zattrs''" "?J \<noteq> ''/.zarray''" "?J \<noteq> ''/.zattrs''"
    using z s by auto
  then show "chunk_key p c \<noteq> p @ ''/.zarray''" "chunk_key p c \<noteq> p @ ''/.zattrs''"
    by (simp_all add: chunk_key_def)
qed

lemma write_chunks_keys:
  "fst ` set (write_chunks u p cinfo st) = fst ` set st \<union> (\<lambda>x. chunk_key p (fst x)) ` set cinfo"
  by (induction u p cinfo st rule: write_chunks.induct) (auto simp add: dom_update)

lemma write_chunks_other:
  "k \<notin> (\<lambda>x. chunk_key p (fst x)) ` set cinfo \<Longrightarrow> map_of (write_chunks u p cinfo st) k = map_of st k"
  by (induction u p cinfo st rule: write_chunks.induct) (auto simp add: update_conv')

lemma write_chunks_entry:
  "distinct (map fst cinfo) \<Longrightarrow> (c, off, sz) \<in> set cinfo \<Longrightarrow>
   map_of (write_chunks u p cinfo st) (chunk_key p c) = Some (Ref u off sz)"
proof (induction u p cinfo st rule: write_chunks.induct)
  case (1 u p st)
  then show ?case by simp
next
  case (2 u p k off' sz' rest st)
  show ?case
  proof (cases "(c, off, sz) \<in> set rest")
    case True
    with 2 show ?thesis by simp
  next
    case False
    with "2.prems" have e: "k = c" "off' = off" "sz' = sz" by auto
    from "2.prems"(1) e have "c \<notin> fst ` set rest" by simp
    then have "chunk_key p c \<notin> (\<lambda>x. chunk_key p (fst x)) ` set rest"
      using chunk_key_inj by fastforce
    then show ?thesis
      using e by (simp add: write_chunks_other update_conv')
  qed
qed

lemma write_chunks_distinct:
  "distinct (map fst st) \<Longrightarrow> distinct (map fst (write_chunks u p cinfo st))"
  by (induction u p cinfo st rule: write_chunks.induct) (auto simp add: distinct_update)

lemma chunk_loop_distinct:
  "chunk_loop cs blobs acc = Inr r \<Longrightarrow> distinct (map fst acc) \<Longrightarrow> distinct (map fst r)"
proof (induction cs blobs acc rule: chunk_loop.induct)
  case (1 chunk_size stinfo)
  then show ?case by simp
next
  case (2 chunk_size blob blobs stinfo)
  then show ?case
    by (auto simp add: distinct_update split: sum.splits)
qed

lemma storage_info_distinct: "storage_info d = Inr cinfo \<Longrightarrow> distinct (map fst cinfo)"
  by (auto simp add: storage_info_def chunk_loop_distinct split: option.splits if_splits)

lemma write_attrs_keys: "fst ` set (write_attrs Z key zattrs st) \<subseteq> insert key (fst ` set st)"
  by (auto simp add: write_attrs_def dom_update)

lemma write_attrs_distinct:
  "distinct (map fst st) \<Longrightarrow> distinct (map fst (write_attrs Z key zattrs st))"
  by (simp add: write_attrs_def distinct_update)

lemma write_attrs_other: "k \<noteq> key \<Longrightarrow> map_of (write_attrs Z key zattrs st) k = map_of st k"
  by (simp add: write_attrs_def update_conv')

lemma meta_frame_zarray: "meta_frame p st (AList.update (p @ ''/.zarray'') v st)"
  by (auto simp add: meta_frame_def dom_update update_conv' distinct_update)

lemma meta_frame_zattrs:
  "meta_frame p st stm \<Longrightarrow> meta_frame p st (write_attrs Z (p @ ''/.zattrs'') za stm)"
  using write_attrs_keys [of Z "p @ ''/.zattrs''" za stm]
  by (auto simp add: meta_frame_def write_attrs_other write_attrs_distinct)

text \<open>What a successful call on a dataset leaves: the store untouched, or the metadata
  documents and the chunk references.\<close>

lemma translate_dataset_cases:
  assumes ok: "translate_dataset Z cfg d st = Inr st'" and nc: "layout d \<noteq> COMPACT"
    and ci: "storage_info d = Inr cinfo"
  shows "(cinfo = [] \<and> st' = st)
       \<or> (\<exists>stm. st' = write_chunks (uri cfg) (zarr_path (name d)) cinfo stm
              \<and> meta_frame (zarr_path (name d)) st stm)"
proof (cases "xr cfg \<and> is_scale d \<and> cinfo = []")
  case True
  with ok nc ci show ?thesis
    by (simp add: translate_dataset_def split: if_splits)
next
  case False
  let ?p = "zarr_path (name d)"
  from ok nc have nf: "\<not> unsupported_filters d"
    by (simp add: translate_dataset_def split: if_splits)
  from ok nc nf ci False obtain doc where doc: "enc_array Z d = Inr doc"
    by (cases "enc_array Z d") (auto simp add: translate_dataset_def)
  let ?st2 = "write_attrs Z (?p @ ''/.zattrs'') (transfer_loop (xr cfg) (attrs d) [])
                (AList.update (?p @ ''/.zarray'') (Bytes doc) st)"
  have f2: "meta_frame ?p st ?st2"
    by (intro meta_frame_zattrs meta_frame_zarray)
  show ?thesis
  proof (cases "xr cfg")
    case x: True
    with ok nc nf ci False doc obtain adims where ad: "get_array_dims d = Inr adims"
      by (cases "get_array_dims d") (auto simp add: translate_dataset_def Let_def)
    let ?st3 = "write_attrs Z (?p @ ''/.zattrs'')
                  (AList.update ''_ARRAY_DIMENSIONS'' (ADims adims) (transfer_loop (xr cfg) (attrs d) []))
                  ?st2"
    have "meta_frame ?p st ?st3"
      using f2 by (rule meta_frame_zattrs)
    moreover have "st' = write_chunks (uri cfg) ?p cinfo ?st3"
      using ok nc nf ci False doc x ad by (auto simp add: translate_dataset_def Let_def)
    ultimately show ?thesis by blast
  next
    case x: False
    have "st' = write_chunks (uri cfg) ?p cinfo ?st2"
      using ok nc nf ci False doc x by (auto simp add: translate_dataset_def Let_def)
    with f2 show ?thesis by blast
  qed
qed

text \<open>
  C3, the claim as stated fails: the length of an entry is the length the chunk index
  reports, whatever it is. A chunk reported with length 0 gives an entry of length 0.
\<close>

theorem zero_length_chunk_entry:
  "storage_info zero_chunk_dataset = Inr [([0], 400, 0)]
   \<and> translator ex_codec ex_config (Dataset zero_chunk_dataset) []
       = Inr [(''temp/.zarray'', Bytes ''zarray''), (''temp/0'', Ref ''s3://bucket/file.h5'' 400 0)]"
  by (simp add: translate_dataset_def unsupported_filters_def truthy_def storage_info_def
      zero_chunk_dataset_def gzip_dataset_def ex_codec_def ex_config_def zarr_path_def
      chunk_key_def write_attrs_def str_nat.simps digit_char_values)

text \<open>
  C3, amended. Take a dataset whose layout is not compact, for which \<open>_storage_info\<close>
  reports the triples \<open>cinfo\<close>, and a store that holds no chunk key of this array.
  After the callback has run on the dataset, the store holds exactly \<open>length cinfo\<close>
  chunk keys of the array, namely the keys of the reported coordinates; each is bound to
  the remote reference with the source identifier and the reported offset and length; the
  reported coordinates are pairwise distinct, the keys of the store are, and the key
  convention maps distinct coordinates to distinct keys.
\<close>

theorem chunk_entries:
  assumes ok: "translator Z cfg (Dataset d) st = Inr st'"
    and nc: "layout d \<noteq> COMPACT"
    and ci: "storage_info d = Inr cinfo"
    and fresh: "\<forall>c. chunk_key (zarr_path (name d)) c \<notin> fst ` set st"
    and dist: "distinct (map fst st)"
  shows "card {k \<in> fst ` set st'. \<exists>c. k = chunk_key (zarr_path (name d)) c} = length cinfo
       \<and> {k \<in> fst ` set st'. \<exists>c. k = chunk_key (zarr_path (name d)) c}
           = (\<lambda>x. chunk_key (zarr_path (name d)) (fst x)) ` set cinfo
       \<and> (\<forall>c off sz. (c, off, sz) \<in> set cinfo \<longrightarrow>
             map_of st' (chunk_key (zarr_path (name d)) c) = Some (Ref (uri cfg) off sz))
       \<and> distinct (map fst cinfo) \<and> distinct (map fst st')
       \<and> inj (chunk_key (zarr_path (name d)))"
proof -
  let ?p = "zarr_path (name d)"
  let ?K = "\<lambda>s. {k \<in> fst ` set s. \<exists>c. k = chunk_key ?p c}"
  have dc: "distinct (map fst cinfo)" using ci by (rule storage_info_distinct)
  have inj: "inj (chunk_key ?p)" by (rule injI) (rule chunk_key_inj)
  have inj_on: "inj_on (\<lambda>x. chunk_key ?p (fst x)) (set cinfo)"
  proof (rule inj_onI)
    fix x y assume "x \<in> set cinfo" "y \<in> set cinfo" "chunk_key ?p (fst x) = chunk_key ?p (fst y)"
    then have "fst x = fst y" by (simp add: chunk_key_inj)
    with dc \<open>x \<in> set cinfo\<close> \<open>y \<in> set cinfo\<close> show "x = y"
      by (metis eq_key_imp_eq_value prod.collapse)
  qed
  have card_img: "card ((\<lambda>x. chunk_key ?p (fst x)) ` set cinfo) = length cinfo"
    using inj_on dc by (simp add: card_image distinct_card [OF distinct_map [THEN iffD1, THEN conjunct1]])
  from ok have ok': "translate_dataset Z cfg d st = Inr st'" by simp
  from translate_dataset_cases [OF ok' nc ci]
  show ?thesis
  proof
    assume e: "cinfo = [] \<and> st' = st"
    have "\<And>k. k \<in> fst ` set st \<Longrightarrow> \<not> (\<exists>c. k = chunk_key ?p c)"
      using fresh by metis
    then have "?K st = {}" by simp
    with e dist dc inj show ?thesis by simp
  next
    assume "\<exists>stm. st' = write_chunks (uri cfg) ?p cinfo stm \<and> meta_frame ?p st stm"
    then obtain stm where st': "st' = write_chunks (uri cfg) ?p cinfo stm"
      and fr: "meta_frame ?p st stm" by blast
    have none: "?K stm = {}"
    proof -
      have "\<not> (\<exists>c. k = chunk_key ?p c)" if m: "k \<in> fst ` set stm" for k
      proof
        assume "\<exists>c. k = chunk_key ?p c"
        then obtain c where k: "k = chunk_key ?p c" ..
        from fr have "fst ` set stm \<subseteq> fst ` set st \<union> {?p @ ''/.zarray'', ?p @ ''/.zattrs''}"
          by (simp add: meta_frame_def)
        with m have "k \<in> fst ` set st \<or> k = ?p @ ''/.zarray'' \<or> k = ?p @ ''/.zattrs''"
          by blast
        with k fresh chunk_key_not_meta [of ?p c] show False by metis
      qed
      then show ?thesis by simp
    qed
    have keys: "?K st' = (\<lambda>x. chunk_key ?p (fst x)) ` set cinfo"
      using none by (auto simp add: st' write_chunks_keys)
    have ent: "\<forall>c off sz. (c, off, sz) \<in> set cinfo \<longrightarrow>
             map_of st' (chunk_key ?p c) = Some (Ref (uri cfg) off sz)"
      using dc by (simp add: st' write_chunks_entry)
    have "distinct (map fst st')"
      using fr dist by (simp add: st' write_chunks_distinct meta_frame_def)
    with keys card_img ent dc inj show ?thesis by simp
  qed
qed

theorem chunk_entries_witness:
  "translator ex_codec ex_config (Dataset gzip_dataset) []
     = Inr [(''temp/.zarray'', Bytes ''zarray''),
            (''temp/0'', Ref ''s3://bucket/file.h5'' 400 30),
            (''temp/1'', Ref ''s3://bucket/file.h5'' 430 28)]
   \<and> storage_info gzip_dataset = Inr [([0], 400, 30), ([1], 430, 28)]
   \<and> card {k \<in> {''temp/.zarray'', ''temp/0'', ''temp/1''}. \<exists>c. k = chunk_key ''temp'' c} = 2
   \<and> inj (chunk_key ''temp'')"
proof -
  let ?st' = "[(''temp/.zarray'', Bytes ''zarray''),
            (''temp/0'', Ref ''s3://bucket/file.h5'' 400 30),
            (''temp/1'', Ref ''s3://bucket/file.h5'' 430 28)]"
  have ci: "storage_info gzip_dataset = Inr [([0], 400, 30), ([1], 430, 28)]"
    by (simp add: storage_info_def gzip_dataset_def)
  have p: "zarr_path (name gzip_dataset) = ''temp''"
    by (simp add: zarr_path_def gzip_dataset_def)
  have ok: "translator ex_codec ex_config (Dataset gzip_dataset) [] = Inr ?st'"
    by (simp add: translate_dataset_def unsupported_filters_def truthy_def storage_info_def
        gzip_dataset_def ex_codec_def ex_config_def zarr_path_def chunk_key_def write_attrs_def
        str_nat.simps digit_char_values)
  have nc: "layout gzip_dataset \<noteq> COMPACT"
    by (simp add: gzip_dataset_def)
  have fresh: "\<forall>c. chunk_key (zarr_path (name gzip_dataset)) c \<notin> fst ` set ([] :: store)"
    by simp
  have dist: "distinct (map fst ([] :: store))"
    by simp
  note r = chunk_entries [OF ok nc ci fresh dist]
  from r have "card {k \<in> fst ` set ?st'. \<exists>c. k = chunk_key (zarr_path (name gzip_dataset)) c}
      = length [([0::nat], 400::nat, 30::nat), ([1], 430, 28)]"
    by (rule conjunct1)
  then have c: "card {k \<in> {''temp/.zarray'', ''temp/0'', ''temp/1''}. \<exists>c. k = chunk_key ''temp'' c} = 2"
    by (simp add: p)
  from r have i: "inj (chunk_key ''temp'')"
    by (simp only: p)
  from ok ci c i show ?thesis by blast
qed

subsection \<open>Dimension names\<close>

lemma dims_loop_length:
  "dims_loop d ns acc = Inr r \<Longrightarrow>
   length r = length acc + length (filter (\<lambda>n. length (dims d n) = 1 \<or> is_scale d) ns)"
proof (induction d ns acc rule: dims_loop.induct)
  case (1 dset ds)
  then show ?case by simp
next
  case (2 dset n ns ds)
  then show ?case
    by (auto simp add: Let_def split: if_splits)
qed

lemma dims_loop_total:
  "\<forall>n\<in>set ns. length (dims d n) \<le> 1 \<or> is_scale d \<Longrightarrow> \<exists>r. dims_loop d ns acc = Inr r"
proof (induction d ns acc rule: dims_loop.induct)
  case (1 dset ds)
  then show ?case by simp
next
  case (2 dset n ns ds)
  then show ?case
    by (auto simp add: Let_def)
qed

lemma write_attrs_same:
  "za \<noteq> [] \<Longrightarrow> map_of (write_attrs Z key za st) key = Some (Bytes (enc_attrs Z za))"
  by (simp add: write_attrs_def update_conv')

lemma translate_dataset_dims:
  assumes ok: "translate_dataset Z cfg d st = Inr st'" and x: "xr cfg"
    and nc: "layout d \<noteq> COMPACT" and ns: "\<not> (is_scale d \<and> storage_info d = Inr [])"
    and ad: "get_array_dims d = Inr adims"
  shows "map_of st' (zarr_path (name d) @ ''/.zattrs'')
           = Some (Bytes (enc_attrs Z (AList.update ''_ARRAY_DIMENSIONS'' (ADims adims)
                                         (transfer_loop True (attrs d) []))))"
proof -
  let ?p = "zarr_path (name d)"
  from ok nc have nf: "\<not> unsupported_filters d"
    by (simp add: translate_dataset_def split: if_splits)
  from ok nc nf obtain cinfo where ci: "storage_info d = Inr cinfo"
    by (cases "storage_info d") (simp_all add: translate_dataset_def)
  with ns have sk: "\<not> (xr cfg \<and> is_scale d \<and> cinfo = [])" by simp
  from ok nc nf ci sk obtain doc where doc: "enc_array Z d = Inr doc"
    by (cases "enc_array Z d") (simp_all add: translate_dataset_def)
  let ?za = "AList.update ''_ARRAY_DIMENSIONS'' (ADims adims) (transfer_loop True (attrs d) [])"
  let ?stm = "write_attrs Z (?p @ ''/.zattrs'') ?za
               (write_attrs Z (?p @ ''/.zattrs'') (transfer_loop True (attrs d) [])
                  (AList.update (?p @ ''/.zarray'') (Bytes doc) st))"
  have st': "st' = write_chunks (uri cfg) ?p cinfo ?stm"
  proof -
    from sk x have sk2: "(is_scale d \<and> cinfo = []) = False" by simp
    from ok show ?thesis
      by (simp add: translate_dataset_def Let_def nc nf ci doc x ad sk2)
  qed
  have "?p @ ''/.zattrs'' \<notin> (\<lambda>x. chunk_key ?p (fst x)) ` set cinfo"
  proof
    assume "?p @ ''/.zattrs'' \<in> (\<lambda>x. chunk_key ?p (fst x)) ` set cinfo"
    then obtain y where "?p @ ''/.zattrs'' = chunk_key ?p (fst y)" by auto
    with chunk_key_not_meta(2) [of ?p "fst y"] show False by simp
  qed
  then have "map_of st' (?p @ ''/.zattrs'') = map_of ?stm (?p @ ''/.zattrs'')"
    unfolding st' by (rule write_chunks_other)
  also have "\<dots> = Some (Bytes (enc_attrs Z ?za))"
    by (rule write_attrs_same) simp
  finally show ?thesis .
qed


text \<open>
  C10. For a dataset of rank \<open>r\<close> (its shape has \<open>r\<close> axes): when no axis has more than
  one dimension scale attached, or the dataset is itself a scale, \<open>_get_array_dims\<close> returns a
  list and raises nothing. Whatever list it returns has one name for each axis that has
  exactly one scale or belongs to a dataset that is itself a scale, and none for the other
  axes; so it has at most \<open>r\<close> entries, and fewer than \<open>r\<close> when some axis has no scale and
  the dataset is not a scale. In dimension-aware mode the callback stores this list as the
  \<open>_ARRAY_DIMENSIONS\<close> attribute of the array it creates.
\<close>

theorem array_dimensions:
  assumes shp: "shape d = Some shp"
  shows "((\<forall>n<length shp. length (dims d n) \<le> 1) \<or> is_scale d
            \<longrightarrow> (\<exists>adims. get_array_dims d = Inr adims))
       \<and> (\<forall>adims. get_array_dims d = Inr adims \<longrightarrow>
             length adims = length (filter (\<lambda>n. length (dims d n) = 1 \<or> is_scale d) [0..<length shp])
             \<and> length adims \<le> length shp
             \<and> ((\<exists>n<length shp. dims d n = []) \<and> \<not> is_scale d \<longrightarrow> length adims < length shp)
             \<and> (xr cfg \<and> layout d \<noteq> COMPACT \<and> \<not> (is_scale d \<and> storage_info d = Inr [])
                  \<and> translator Z cfg (Dataset d) st = Inr st'
                \<longrightarrow> map_of st' (zarr_path (name d) @ ''/.zattrs'')
                      = Some (Bytes (enc_attrs Z (AList.update ''_ARRAY_DIMENSIONS'' (ADims adims)
                                                   (transfer_loop True (attrs d) []))))))"
proof (intro conjI allI impI)
  assume "(\<forall>n<length shp. length (dims d n) \<le> 1) \<or> is_scale d"
  then have "\<forall>n\<in>set [0..<length shp]. length (dims d n) \<le> 1 \<or> is_scale d" by auto
  from dims_loop_total [OF this, of "[]"] show "\<exists>adims. get_array_dims d = Inr adims"
    by (simp add: get_array_dims_def shp)
next
  fix adims assume "get_array_dims d = Inr adims"
  then have l: "dims_loop d [0..<length shp] [] = Inr adims"
    by (simp add: get_array_dims_def shp)
  from dims_loop_length [OF l]
  show len: "length adims = length (filter (\<lambda>n. length (dims d n) = 1 \<or> is_scale d) [0..<length shp])"
    by simp
  have "length (filter (\<lambda>n. length (dims d n) = 1 \<or> is_scale d) [0..<length shp])
          \<le> length [0..<length shp]"
    by (rule length_filter_le)
  with len show "length adims \<le> length shp" by simp
next
  fix adims assume g: "get_array_dims d = Inr adims"
    and z: "(\<exists>n<length shp. dims d n = []) \<and> \<not> is_scale d"
  from g have l: "dims_loop d [0..<length shp] [] = Inr adims"
    by (simp add: get_array_dims_def shp)
  from z obtain n where n: "n \<in> set [0..<length shp]" "dims d n = []" by auto
  with z have "\<not> (length (dims d n) = 1 \<or> is_scale d)" by simp
  with n(1) have "length (filter (\<lambda>n. length (dims d n) = 1 \<or> is_scale d) [0..<length shp])
      < length [0..<length shp]"
    by (rule length_filter_less)
  with dims_loop_length [OF l] show "length adims < length shp" by simp
next
  fix adims assume g: "get_array_dims d = Inr adims"
    and t: "xr cfg \<and> layout d \<noteq> COMPACT \<and> \<not> (is_scale d \<and> storage_info d = Inr [])
                  \<and> translator Z cfg (Dataset d) st = Inr st'"
  then have "translate_dataset Z cfg d st = Inr st'" by simp
  from translate_dataset_dims [OF this _ _ _ g] t
  show "map_of st' (zarr_path (name d) @ ''/.zattrs'')
          = Some (Bytes (enc_attrs Z (AList.update ''_ARRAY_DIMENSIONS'' (ADims adims)
                                        (transfer_loop True (attrs d) []))))"
    by blast
qed


theorem array_dimensions_witness:
  "shape scale_dataset = Some [4, 3]
   \<and> get_array_dims scale_dataset = Inr [''time'']
   \<and> length [''time''] < length [4 :: nat, 3]
   \<and> map_of [(''temp/.zarray'', Bytes ''zarray''), (''temp/.zattrs'', Bytes ''zattrs''),
              (''temp/0.0'', Ref ''s3://bucket/file.h5'' 400 30)] ''temp/.zattrs''
       = Some (Bytes (enc_attrs ex_codec [(''_ARRAY_DIMENSIONS'', ADims [''time''])]))"
proof -
  let ?st' = "[(''temp/.zarray'', Bytes ''zarray''), (''temp/.zattrs'', Bytes ''zattrs''),
              (''temp/0.0'', Ref ''s3://bucket/file.h5'' 400 30)]"
  let ?cfg = "ex_config\<lparr>xr := True\<rparr>"
  have shp: "shape scale_dataset = Some [4, 3]"
    by (simp add: scale_dataset_def)
  have g: "get_array_dims scale_dataset = Inr [''time'']"
    by (simp add: get_array_dims_def scale_dataset_def gzip_dataset_def)
  have ok: "translator ex_codec ?cfg (Dataset scale_dataset) [] = Inr ?st'"
    by (simp add: translate_dataset_def unsupported_filters_def truthy_def storage_info_def
        get_array_dims_def upt_rec [of 0] upt_rec [of 1] upt_rec [of "Suc 0"]
        write_attrs_def chunk_key_def str_nat.simps digit_char_values
        scale_dataset_def gzip_dataset_def ex_codec_def ex_config_def zarr_path_def)
  have pre: "xr ?cfg \<and> layout scale_dataset \<noteq> COMPACT
      \<and> \<not> (is_scale scale_dataset \<and> storage_info scale_dataset = Inr [])
      \<and> translator ex_codec ?cfg (Dataset scale_dataset) [] = Inr ?st'"
    using ok by (simp add: scale_dataset_def gzip_dataset_def)
  have z: "(\<exists>n<length [4 :: nat, 3]. dims scale_dataset n = []) \<and> \<not> is_scale scale_dataset"
    by (auto simp add: scale_dataset_def gzip_dataset_def intro: exI [of _ 1])
  note r = array_dimensions [OF shp, where cfg = ?cfg and Z = ex_codec and st = "[]" and st' = ?st',
      THEN conjunct2, rule_format, OF g]
  from r z have "length [''time''] < length [4 :: nat, 3]" by blast
  moreover from r pre have "map_of ?st' (zarr_path (name scale_dataset) @ ''/.zattrs'')
       = Some (Bytes (enc_attrs ex_codec (AList.update ''_ARRAY_DIMENSIONS'' (ADims [''time''])
              (transfer_loop True (attrs scale_dataset) []))))" by blast
  then have "map_of ?st' ''temp/.zattrs''
       = Some (Bytes (enc_attrs ex_codec [(''_ARRAY_DIMENSIONS'', ADims [''time''])]))"
    by (simp add: scale_dataset_def gzip_dataset_def zarr_path_def)
  ultimately show ?thesis using shp g by blast
qed

text \<open>What \<open>_do_inline\<close> does to one value.\<close>

section \<open>Properties of the inliner\<close>

subsection \<open>The inliner as a map over the store\<close>

lemma update_as_map:
  "distinct (map fst ys) \<Longrightarrow> k \<in> fst ` set ys \<Longrightarrow>
   AList.update k w ys = map (\<lambda>(k', v'). if k' = k then (k', w) else (k', v')) ys"
proof (induction ys)
  case Nil
  then show ?case by simp
next
  case (Cons p ys)
  obtain a b where p: "p = (a, b)" by (cases p)
  show ?case
  proof (cases "a = k")
    case True
    with Cons.prems p have "k \<notin> fst ` set ys" by auto
    then have "map (\<lambda>(k', v'). if k' = k then (k', w) else (k', v')) ys = ys"
      by (intro map_idI) (auto simp add: image_iff)
    with True p show ?thesis by simp
  next
    case False
    with Cons p show ?thesis by auto
  qed
qed

lemma inline_step_as_map:
  assumes "distinct (map fst ys)" "(k, v) \<in> set ys"
  shows "inline_step file t (k, v) ys
           = map (\<lambda>(k', v'). if k' = k then (k', inline_entry file t v') else (k', v')) ys"
proof -
  let ?F = "\<lambda>w. map (\<lambda>(k', v'). if k' = k then (k', w) else (k', v')) ys"
  have uniq: "v' = v" if "(k, v') \<in> set ys" for v'
    using assms(1) that assms(2) by (rule eq_key_imp_eq_value)
  have same: "?F v = ys"
    by (rule map_idI) (auto dest: uniq)
  have val: "map (\<lambda>(k', v'). if k' = k then (k', inline_entry file t v') else (k', v')) ys
             = ?F (inline_entry file t v)"
    by (rule map_cong [OF refl]) (auto dest: uniq)
  have mem: "k \<in> fst ` set ys" using assms(2) by force
  have upd: "AList.update k (inline_entry file t v) ys = ?F (inline_entry file t v)"
    using assms(1) mem by (rule update_as_map)
  have "inline_step file t (k, v) ys = ?F (inline_entry file t v)"
  proof (cases "\<exists>u off sz. v = Ref u off sz \<and> int sz < t")
    case True
    then have "inline_step file t (k, v) ys = AList.update k (inline_entry file t v) ys"
      by (auto simp add: inline_entry_def)
    with upd show ?thesis by (simp only:)
  next
    case False
    then have "inline_step file t (k, v) ys = ys" and "inline_entry file t v = v"
      by (cases v; simp add: inline_entry_def)+
    with same show ?thesis by (simp only:)
  qed
  with val show ?thesis by (simp only:)
qed

lemma fold_inline_step:
  "distinct (map fst ys) \<Longrightarrow> distinct (map fst xs) \<Longrightarrow> set xs \<subseteq> set ys \<Longrightarrow>
   fold (inline_step file t) xs ys
     = map (\<lambda>(k, v). if k \<in> fst ` set xs then (k, inline_entry file t v) else (k, v)) ys"
proof (induction xs arbitrary: ys)
  case Nil
  then show ?case by simp
next
  case (Cons x xs)
  obtain k v where x: "x = (k, v)" by (cases x)
  let ?H = "\<lambda>(k', v'). if k' = k then (k', inline_entry file t v') else (k', v')"
  let ?G = "\<lambda>(k, v). if k \<in> fst ` set xs then (k, inline_entry file t v) else (k, v)"
  let ?ys1 = "map ?H ys"
  from Cons.prems x have mem: "(k, v) \<in> set ys" by simp
  have step: "inline_step file t x ys = ?ys1"
    unfolding x using Cons.prems(1) mem by (rule inline_step_as_map)
  have keys1: "map fst ?ys1 = map fst ys"
    by (induction ys) auto
  have d1: "distinct (map fst ?ys1)"
    using Cons.prems(1) by (simp only: keys1)
  from Cons.prems(2) x have knot: "k \<notin> fst ` set xs" and dxs: "distinct (map fst xs)"
    by auto
  have sub: "set xs \<subseteq> set ?ys1"
  proof
    fix y assume y: "y \<in> set xs"
    with Cons.prems(3) have "y \<in> set ys" by auto
    then have "?H y \<in> set ?ys1" by simp
    moreover from y knot have "fst y \<noteq> k" by auto
    then have "?H y = y" by (cases y) simp
    ultimately show "y \<in> set ?ys1" by (simp only:)
  qed
  have pointwise: "?G (?H p) = (\<lambda>(k', v). if k' \<in> fst ` set (x # xs) then (k', inline_entry file t v) else (k', v)) p"
    for p
    using knot by (cases p) (simp add: x)
  have "fold (inline_step file t) (x # xs) ys = fold (inline_step file t) xs ?ys1"
    by (simp only: fold_simps step)
  also have "\<dots> = map ?G ?ys1"
    using d1 dxs sub by (rule Cons.IH)
  also have "\<dots> = map (\<lambda>p. ?G (?H p)) ys"
    by (simp only: map_map comp_def)
  also have "\<dots> = map (\<lambda>(k', v). if k' \<in> fst ` set (x # xs) then (k', inline_entry file t v) else (k', v)) ys"
    by (simp only: pointwise)
  finally show ?case .
qed

lemma do_inline_map:
  assumes "distinct (map fst st)"
  shows "do_inline file t st = map (\<lambda>(k, v). (k, inline_entry file t v)) st"
proof -
  have "do_inline file t st
      = map (\<lambda>(k, v). if k \<in> fst ` set st then (k, inline_entry file t v) else (k, v)) st"
    unfolding do_inline_def using assms assms by (rule fold_inline_step) simp
  also have "\<dots> = map (\<lambda>(k, v). (k, inline_entry file t v)) st"
    by (rule map_cong [OF refl]) force
  finally show ?thesis .
qed

lemma inline_entry_idem: "inline_entry file t (inline_entry file t v) = inline_entry file t v"
  by (cases v) (simp_all add: inline_entry_def)

text \<open>
  C9. A reference store is a dict, so its keys are pairwise distinct. For every such store
  and every threshold, running \<open>_do_inline\<close> on the result of \<open>_do_inline\<close> changes nothing:
  a value that was replaced is a \<open>bytes\<close> value, not a list, and is passed over.
\<close>

theorem do_inline_idempotent:
  assumes "distinct (map fst st)"
  shows "do_inline file threshold (do_inline file threshold st) = do_inline file threshold st"
proof -
  let ?once = "map (\<lambda>(k, v). (k, inline_entry file threshold v)) st"
  have "map fst ?once = map fst st"
    by (induction st) auto
  with assms have "distinct (map fst ?once)"
    by (simp only:)
  then have "do_inline file threshold ?once = map (\<lambda>(k, v). (k, inline_entry file threshold v)) ?once"
    by (rule do_inline_map)
  also have "\<dots> = ?once"
    by (induction st) (auto simp add: inline_entry_idem)
  finally show ?thesis
    by (simp only: do_inline_map [OF assms])
qed

theorem do_inline_idempotent_witness:
  "distinct (map fst small_refs_store)
   \<and> do_inline ''abcdefgh'' 100 small_refs_store
       = [(''x/.zarray'', Bytes ''zarray''), (''x/0'', Bytes ''abc''),
          (''x/1'', Ref ''s3://bucket/file.h5'' 3 200)]
   \<and> do_inline ''abcdefgh'' 100 (do_inline ''abcdefgh'' 100 small_refs_store)
       = do_inline ''abcdefgh'' 100 small_refs_store"
proof -
  have d: "distinct (map fst small_refs_store)"
    by (simp add: small_refs_store_def)
  have v: "do_inline ''abcdefgh'' 100 small_refs_store
       = [(''x/.zarray'', Bytes ''zarray''), (''x/0'', Bytes ''abc''),
          (''x/1'', Ref ''s3://bucket/file.h5'' 3 200)]"
    by (simp add: do_inline_def small_refs_store_def inline_data_def read_range_def is_ascii_def)
  from d v do_inline_idempotent [OF d, of "''abcdefgh''" 100] show ?thesis by simp
qed

subsection \<open>Base64 and the round trip of an inlined chunk\<close>

lemma index_of_nth:
  "distinct xs \<Longrightarrow> i < length xs \<Longrightarrow> index_of (xs ! i) xs = Some i"
proof (induction xs arbitrary: i)
  case Nil
  then show ?case by simp
next
  case (Cons x xs)
  show ?case
  proof (cases i)
    case 0
    then show ?thesis by simp
  next
    case (Suc j)
    with Cons.prems have j: "j < length xs" and d: "distinct xs" and "x \<notin> set xs" by simp_all
    then have "xs ! j \<noteq> x" by (metis nth_mem)
    with Cons.IH [OF d j] Suc show ?thesis by simp
  qed
qed

lemma b64chars_length: "length b64chars = 64"
  by (simp add: b64chars_def)

lemma b64chars_distinct: "distinct b64chars"
  by (simp add: b64chars_def)

lemma b64chars_no_pad: "CHR ''='' \<notin> set b64chars"
  by (simp add: b64chars_def)

lemma b64val_b64char: "i < 64 \<Longrightarrow> b64val (b64char i) = Some i"
  by (simp add: b64val_def b64char_def index_of_nth b64chars_distinct b64chars_length)

lemma b64char_not_pad: "i < 64 \<Longrightarrow> b64char i \<noteq> CHR ''=''"
  using b64chars_no_pad by (metis b64char_def b64chars_length nth_mem)


lemma sextet_bounds:
  fixes a b c :: char
  shows "(of_char a :: nat) div 4 < 64"
    and "((of_char a :: nat) mod 4) * 16 + (of_char b :: nat) div 16 < 64"
    and "((of_char b :: nat) mod 16) * 4 + (of_char c :: nat) div 64 < 64"
    and "(of_char c :: nat) mod 64 < 64"
    and "((of_char a :: nat) mod 4) * 16 < 64"
    and "((of_char b :: nat) mod 16) * 4 < 64"
proof -
  have A: "(of_char a :: nat) < 256" and B: "(of_char b :: nat) < 256" and C: "(of_char c :: nat) < 256"
    by (rule nat_of_char_less_256)+
  show "(of_char a :: nat) div 4 < 64" using A by arith
  show "((of_char a :: nat) mod 4) * 16 + (of_char b :: nat) div 16 < 64" using B by arith
  show "((of_char b :: nat) mod 16) * 4 + (of_char c :: nat) div 64 < 64" using C by arith
  show "(of_char c :: nat) mod 64 < 64" by arith
  show "((of_char a :: nat) mod 4) * 16 < 64" by arith
  show "((of_char b :: nat) mod 16) * 4 < 64" by arith
qed


lemma sextets_to_bytes:
  fixes a b c :: char
  shows "(of_char a div 4) * 4 + ((of_char a mod 4) * 16 + of_char b div 16) div 16 = (of_char a :: nat)"
    and "(of_char a div 4) * 4 + ((of_char a mod 4) * 16) div 16 = (of_char a :: nat)"
    and "(((of_char a mod 4) * 16 + of_char b div 16) mod 16) * 16
           + ((of_char b mod 16) * 4 + of_char c div 64) div 4 = (of_char b :: nat)"
    and "(((of_char a mod 4) * 16 + of_char b div 16) mod 16) * 16
           + ((of_char b mod 16) * 4) div 4 = (of_char b :: nat)"
    and "(((of_char b mod 16) * 4 + of_char c div 64) mod 4) * 64 + of_char c mod 64 = (of_char c :: nat)"
proof -
  define A B C :: nat where "A = of_char a" and "B = of_char b" and "C = of_char c"
  have A: "A < 256" and B: "B < 256" and C: "C < 256"
    by (simp_all add: A_def B_def C_def)
  have b16: "B div 16 < 16" using B by arith
  have c64: "C div 64 < 4" using C by arith
  have 1: "(A mod 4 * 16 + B div 16) div 16 = A mod 4" using b16 by simp
  have 2: "(A mod 4 * 16 + B div 16) mod 16 = B div 16" using b16 by simp
  have 3: "(B mod 16 * 4 + C div 64) div 4 = B mod 16" using c64 by simp
  have 4: "(B mod 16 * 4 + C div 64) mod 4 = C div 64" using c64 by simp
  show "(of_char a div 4) * 4 + ((of_char a mod 4) * 16 + of_char b div 16) div 16 = (of_char a :: nat)"
    unfolding A_def [symmetric] B_def [symmetric] 1 by simp
  show "(of_char a div 4) * 4 + ((of_char a mod 4) * 16) div 16 = (of_char a :: nat)"
    by simp
  show "(((of_char a mod 4) * 16 + of_char b div 16) mod 16) * 16
           + ((of_char b mod 16) * 4 + of_char c div 64) div 4 = (of_char b :: nat)"
    unfolding A_def [symmetric] B_def [symmetric] C_def [symmetric] 2 3 by simp
  show "(((of_char a mod 4) * 16 + of_char b div 16) mod 16) * 16
           + ((of_char b mod 16) * 4) div 4 = (of_char b :: nat)"
    unfolding A_def [symmetric] B_def [symmetric] 2 by simp
  show "(((of_char b mod 16) * 4 + of_char c div 64) mod 4) * 64 + of_char c mod 64 = (of_char c :: nat)"
    unfolding B_def [symmetric] C_def [symmetric] 4 by simp
qed


lemma b64val_sextets:
  fixes a b c :: char
  shows "b64val (b64char (of_char a div 4)) = Some (of_char a div 4)"
    and "b64val (b64char ((of_char a mod 4) * 16 + of_char b div 16))
           = Some ((of_char a mod 4) * 16 + of_char b div 16)"
    and "b64val (b64char ((of_char b mod 16) * 4 + of_char c div 64))
           = Some ((of_char b mod 16) * 4 + of_char c div 64)"
    and "b64val (b64char (of_char c mod 64)) = Some (of_char c mod 64)"
    and "b64val (b64char ((of_char a mod 4) * 16)) = Some ((of_char a mod 4) * 16)"
    and "b64val (b64char ((of_char b mod 16) * 4)) = Some ((of_char b mod 16) * 4)"
  by (rule b64val_b64char, rule sextet_bounds)+

lemma pad_sextets:
  fixes a b c :: char
  shows "(b64char ((of_char b mod 16) * 4 + of_char c div 64) = CHR ''='') = False"
    and "(b64char (of_char c mod 64) = CHR ''='') = False"
    and "(b64char ((of_char b mod 16) * 4) = CHR ''='') = False"
  using b64char_not_pad [OF sextet_bounds(3) [of b c]] b64char_not_pad [OF sextet_bounds(4) [of c]]
    b64char_not_pad [OF sextet_bounds(6) [of b]]
  by (simp_all only: simp_thms)

lemma byte_sextets:
  fixes a b c :: char
  shows "char_of ((of_char a div 4) * 4 + ((of_char a mod 4) * 16 + of_char b div 16) div 16 :: nat) = a"
    and "char_of ((of_char a div 4) * 4 + ((of_char a mod 4) * 16) div 16 :: nat) = a"
    and "char_of ((((of_char a mod 4) * 16 + of_char b div 16) mod 16) * 16
           + ((of_char b mod 16) * 4 + of_char c div 64) div 4 :: nat) = b"
    and "char_of ((((of_char a mod 4) * 16 + of_char b div 16) mod 16) * 16
           + ((of_char b mod 16) * 4) div 4 :: nat) = b"
    and "char_of ((((of_char b mod 16) * 4 + of_char c div 64) mod 4) * 64 + of_char c mod 64 :: nat) = c"
  by (simp_all only: sextets_to_bytes char_of_char)

lemma b64_roundtrip: "b64decode (b64encode x) = Some x"
proof (induction x rule: b64encode.induct)
  case 1
  show ?case by simp
next
  case (2 a)
  show ?case
    by (simp only: b64encode.simps b64decode.simps b64val_sextets pad_sextets byte_sextets
        prod.case option.case simp_thms if_True if_False)
next
  case (3 a b)
  show ?case
    by (simp only: b64encode.simps b64decode.simps b64val_sextets pad_sextets byte_sextets
        prod.case option.case simp_thms if_True if_False)
next
  case (4 a b c rest)
  then show ?case
    by (simp only: b64encode.simps b64decode.simps b64val_sextets pad_sextets byte_sextets
        prod.case option.case simp_thms if_True if_False append.simps)
qed


lemma decode_inline_data:
  assumes "\<not> (is_ascii data \<and> startswith data ''base64:'')"
  shows "decode_inline (inline_data data) = Some data"
proof (cases "is_ascii data")
  case True
  with assms show ?thesis
    by (simp add: inline_data_def decode_inline_def)
next
  case False
  then show ?thesis
    by (simp add: inline_data_def decode_inline_def startswith_def b64_roundtrip)
qed

lemma map_of_inlined:
  "map_of (map (\<lambda>(k, v). (k, inline_entry file t v)) st) k
     = map_option (inline_entry file t) (map_of st k)"
  by (induction st) auto

text \<open>
  C8, the claim as stated fails: a chunk whose bytes are ASCII text that begins with the
  tag is stored as it is, and the reader takes the tag for the mark of base64.
\<close>

theorem tagged_ascii_chunk_not_restored:
  "read_range ''base64:QQ=='' 0 11 = ''base64:QQ==''
   \<and> do_inline ''base64:QQ=='' 100 [(''x/0'', Ref ''s3://bucket/file.h5'' 0 11)]
       = [(''x/0'', Bytes ''base64:QQ=='')]
   \<and> decode_inline ''base64:QQ=='' = Some ''A''
   \<and> decode_inline ''base64:QQ=='' \<noteq> Some (read_range ''base64:QQ=='' 0 11)"
  by code_simp

text \<open>
  C8, amended. For every entry that \<open>_do_inline\<close> replaces (a list whose length is below the
  threshold, in a store with distinct keys), provided the bytes read are not ASCII text
  beginning with \<open>base64:\<close>, the stored value is a \<open>bytes\<close> value whose reading (as it
  stands, or base64-decoded after the tag is stripped) gives back exactly the bytes read
  from the file.
\<close>

theorem inline_roundtrip:
  assumes "distinct (map fst st)" and "(k, Ref u off sz) \<in> set st" and "int sz < threshold"
    and "\<not> (is_ascii (read_range file off sz) \<and> startswith (read_range file off sz) ''base64:'')"
  shows "\<exists>v. map_of (do_inline file threshold st) k = Some (Bytes v)
             \<and> decode_inline v = Some (read_range file off sz)"
proof -
  from assms(1,2) have m: "map_of st k = Some (Ref u off sz)" by simp
  have "map_of (do_inline file threshold st) k
      = map_option (inline_entry file threshold) (map_of st k)"
    by (simp only: do_inline_map [OF assms(1)] map_of_inlined)
  also have "\<dots> = Some (Bytes (inline_data (read_range file off sz)))"
    using assms(3) by (simp add: m inline_entry_def)
  finally have "map_of (do_inline file threshold st) k
      = Some (Bytes (inline_data (read_range file off sz)))" .
  with decode_inline_data [OF assms(4)] show ?thesis by simp
qed

theorem inline_roundtrip_witness:
  "read_range binary_file 2 2 = [CHR 0xFF, CHR 0x00]
   \<and> \<not> is_ascii (read_range binary_file 2 2)
   \<and> (\<exists>v. map_of (do_inline binary_file 100 [(''x/0'', Ref ''s3://bucket/file.h5'' 2 2)]) ''x/0''
            = Some (Bytes v)
          \<and> decode_inline v = Some [CHR 0xFF, CHR 0x00])"
proof -
  have r: "read_range binary_file 2 2 = [CHR 0xFF, CHR 0x00]"
    by (simp add: read_range_def binary_file_def)
  have n: "\<not> is_ascii (read_range binary_file 2 2)"
    unfolding r by code_simp
  then have h: "\<not> (is_ascii (read_range binary_file 2 2)
                    \<and> startswith (read_range binary_file 2 2) ''base64:'')"
    by simp
  have d: "distinct (map fst [(''x/0'', Ref ''s3://bucket/file.h5'' 2 2)])"
    and m: "(''x/0'', Ref ''s3://bucket/file.h5'' 2 2) \<in> set [(''x/0'', Ref ''s3://bucket/file.h5'' 2 2)]"
    and t: "int 2 < 100"
    by simp_all
  from inline_roundtrip [OF d m t h] r n show ?thesis by simp
qed

section \<open>Properties of the dimension classifier\<close>

text \<open>
  C4. The claim is that every dimension of the merged dataset is classified, a dimension
  absent from the representative source being extra. The generator of \<open>concat_dims\<close>
  looks every merged dimension up in \<open>ds0.dims\<close>, the extra ones included, before
  \<open>same_dims\<close> is computed: with a merged dimension \<open>ens\<close> that the representative source
  lacks, the lookup raises \<open>KeyError\<close> and no partition is produced.
\<close>

theorem extra_dimension_raises:
  "determine_dims [(''ens'', 2), (''x'', 5)] [(''x'', 5)] 2 = Inl (KeyError ''ens'')"
  by (simp add: determine_dims_def)

text \<open>
  When the classifier does return, no dimension is extra; the concatenated dimensions are
  those whose merged extent is the representative extent times the number of sources, the
  shared ones are all others, and the sets are disjoint and cover the merged dimensions.
\<close>

lemma exact_quotient: "v0 \<noteq> 0 \<Longrightarrow> (real v / real v0 = real n) = (v = v0 * n)"
proof -
  assume "v0 \<noteq> 0"
  then have "(real v / real v0 = real n) = (real v = real (v0 * n))"
    by (simp add: field_simps)
  then show ?thesis by (simp only: of_nat_eq_iff)
qed

lemma concat_loop_result:
  "concat_loop ds ds0 n = Inr ks \<Longrightarrow>
   (\<forall>k \<in> fst ` set ds. k \<in> fst ` set ds0)
   \<and> set ks = {k. \<exists>v v0. (k, v) \<in> set ds \<and> map_of ds0 k = Some v0 \<and> v = v0 * n}"
proof (induction ds ds0 n arbitrary: ks rule: concat_loop.induct)
  case (1 ds0 n)
  then show ?case by simp
next
  case (2 k v rest ds0 n)
  from "2.prems" obtain v0 where v0: "map_of ds0 k = Some v0" "v0 \<noteq> 0"
    by (auto split: option.splits if_splits)
  with "2.prems" obtain ks' where ks': "concat_loop rest ds0 n = Inr ks'"
    and ks: "ks = (if v = v0 * n then k # ks' else ks')"
    by (auto simp add: exact_quotient split: sum.splits)
  from "2.IH" [OF v0(1) _ ks'] v0(2)
  have ih: "\<forall>k \<in> fst ` set rest. k \<in> fst ` set ds0"
    "set ks' = {k. \<exists>v v0. (k, v) \<in> set rest \<and> map_of ds0 k = Some v0 \<and> v = v0 * n}"
    by simp_all
  from v0(1) have "k \<in> fst ` set ds0"
    by (metis map_of_eq_None_iff option.distinct(1))
  with ih(1) have a: "\<forall>k' \<in> fst ` set ((k, v) # rest). k' \<in> fst ` set ds0" by simp
  have b: "set ks = {k'. \<exists>v' v0'. (k', v') \<in> set ((k, v) # rest) \<and> map_of ds0 k' = Some v0' \<and> v' = v0' * n}"
    unfolding ks using ih(2) v0(1) by auto
  from a b show ?case by blast
qed

theorem determine_dims_partition:
  assumes "determine_dims ds ds0 n = Inr P"
  shows "extra_dims P = {}
       \<and> concat_dims P = {k. \<exists>v v0. (k, v) \<in> set ds \<and> map_of ds0 k = Some v0 \<and> v = v0 * n}
       \<and> same_dims P = fst ` set ds - concat_dims P
       \<and> concat_dims P \<inter> same_dims P = {}
       \<and> extra_dims P \<union> concat_dims P \<union> same_dims P = fst ` set ds"
proof -
  from assms obtain ks where ks: "concat_loop ds ds0 n = Inr ks"
    and P: "P = \<lparr>extra_dims = set (map fst ds) - set (map fst ds0), concat_dims = set ks,
                 same_dims = set (map fst ds) - (set (map fst ds) - set (map fst ds0)) - set ks\<rparr>"
    by (auto simp add: determine_dims_def Let_def split: sum.splits)
  from concat_loop_result [OF ks]
  have all: "\<forall>k \<in> fst ` set ds. k \<in> fst ` set ds0"
    and c: "set ks = {k. \<exists>v v0. (k, v) \<in> set ds \<and> map_of ds0 k = Some v0 \<and> v = v0 * n}"
    by simp_all
  from all have e: "set (map fst ds) - set (map fst ds0) = {}" by auto
  from c have sub: "set ks \<subseteq> fst ` set ds" by force
  show ?thesis
    unfolding P using e c sub by auto
qed

theorem determine_dims_partition_witness:
  "determine_dims [(''time'', 15), (''x'', 5)] [(''time'', 5), (''x'', 5)] 3
     = Inr \<lparr>extra_dims = {}, concat_dims = {''time''}, same_dims = {''x''}\<rparr>
   \<and> extra_dims \<lparr>extra_dims = {}, concat_dims = {''time''}, same_dims = {''x''}\<rparr> = {}
   \<and> {''time''} \<inter> {''x''} = ({} :: string set)"
proof -
  have v: "determine_dims [(''time'', 15), (''x'', 5)] [(''time'', 5), (''x'', 5)] 3
     = Inr \<lparr>extra_dims = {}, concat_dims = {''time''}, same_dims = {''x''}\<rparr>"
    by (auto simp add: determine_dims_def)
  from determine_dims_partition [OF v] v show ?thesis by simp
qed

text \<open>The distinct elements of a list in the order of their first occurrence.\<close>

section \<open>Properties of the consolidator\<close>

subsection \<open>Counting\<close>

lemma counter_snoc: "counter (us @ [u]) = count_step u (counter us)"
  by (simp add: counter_def)

lemma first_seen_snoc:
  "first_seen (us @ [u]) = (if u \<in> set us then first_seen us else first_seen us @ [u])"
  by (simp add: first_seen_def)

lemma counter_keys: "map fst (counter us) = first_seen us"
proof (induction us rule: rev_induct)
  case Nil
  show ?case by (simp add: counter_def first_seen_def)
next
  case (snoc u us)
  have "set (first_seen us) = set us" by (simp add: first_seen_def)
  with snoc show ?case
    by (simp add: counter_snoc first_seen_snoc count_step_def update_keys)
qed

lemma counter_distinct: "distinct (map fst (counter us))"
  by (simp add: counter_keys first_seen_def)

lemma counter_lookup:
  "map_of (counter us) u = (if u \<in> set us then Some (count_list us u) else None)"
proof (induction us arbitrary: u rule: rev_induct)
  case Nil
  show ?case by (simp add: counter_def)
next
  case (snoc x us)
  show ?case
    by (simp add: counter_snoc count_step_def update_conv' snoc.IH)
qed

lemma counter_member:
  "u \<in> set us \<Longrightarrow> (u, count_list us u) \<in> set (counter us)"
  by (rule map_of_SomeD) (simp add: counter_lookup)


subsection \<open>Template symbols\<close>

lemma ascii_letters_length: "length ascii_letters = 52"
  by (simp add: ascii_letters_def)

lemma ascii_letters_distinct: "distinct ascii_letters"
  by (simp add: ascii_letters_def)

lemma letter_eq_iff:
  "i < 52 \<Longrightarrow> j < 52 \<Longrightarrow> (ascii_letters ! i = ascii_letters ! j) = (i = j)"
  using ascii_letters_distinct by (simp add: nth_eq_iff_index_eq ascii_letters_length)

lemma templates_loop_frame:
  "templates_loop i cs tc acc = Inr T \<Longrightarrow> (\<forall>m. i \<le> m \<and> m < 52 \<longrightarrow> s \<noteq> [ascii_letters ! m])
   \<Longrightarrow> map_of T s = map_of acc s"
proof (induction i cs tc acc rule: templates_loop.induct)
  case (1 i template_count acc)
  then show ?case by simp
next
  case (2 i u c rest template_count acc)
  show ?case
  proof (cases "int c > template_count")
    case True
    with "2.prems"(1) have i: "i < 52"
      by (simp add: ascii_letters_length split: if_splits)
    with True "2.prems"(1) have l: "templates_loop (Suc i) rest template_count
        (AList.update [ascii_letters ! i] u acc) = Inr T"
      by (simp add: ascii_letters_length)
    from "2.prems"(2) i have ne: "s \<noteq> [ascii_letters ! i]" by simp
    have "map_of T s = map_of (AList.update [ascii_letters ! i] u acc) s"
      using True _ l
    proof (rule "2.IH"(1))
      show "i < length ascii_letters" using i by (simp add: ascii_letters_length)
      show "\<forall>m. Suc i \<le> m \<and> m < 52 \<longrightarrow> s \<noteq> [ascii_letters ! m]"
        using "2.prems"(2) by simp
    qed
    with ne show ?thesis by (simp add: update_conv')
  next
    case False
    with "2.prems"(1) have l: "templates_loop (Suc i) rest template_count acc = Inr T"
      by simp
    show ?thesis
      using False l
    proof (rule "2.IH"(2))
      show "\<forall>m. Suc i \<le> m \<and> m < 52 \<longrightarrow> s \<noteq> [ascii_letters ! m]"
        using "2.prems"(2) by simp
    qed
  qed
qed

lemma templates_loop_assigns:
  "templates_loop i cs tc acc = Inr T \<Longrightarrow> j < length cs \<Longrightarrow> cs ! j = (u, c) \<Longrightarrow> int c > tc
   \<Longrightarrow> i + j < 52 \<and> map_of T [ascii_letters ! (i + j)] = Some u"
proof (induction i cs tc acc arbitrary: j rule: templates_loop.induct)
  case (1 i template_count acc)
  then show ?case by simp
next
  case (2 i u0 c0 rest template_count acc)
  show ?case
  proof (cases j)
    case 0
    with "2.prems" have e: "u0 = u" "c0 = c" by simp_all
    with "2.prems" have i: "i < 52"
      by (simp add: ascii_letters_length split: if_splits)
    with e "2.prems" have l: "templates_loop (Suc i) rest template_count
        (AList.update [ascii_letters ! i] u acc) = Inr T"
      by (simp add: ascii_letters_length)
    have "map_of T [ascii_letters ! i] = map_of (AList.update [ascii_letters ! i] u acc) [ascii_letters ! i]"
      using l
    proof (rule templates_loop_frame)
      show "\<forall>m. Suc i \<le> m \<and> m < 52 \<longrightarrow> [ascii_letters ! i] \<noteq> [ascii_letters ! m]"
        using i by (simp add: letter_eq_iff)
    qed
    with 0 i show ?thesis by (simp add: update_conv')
  next
    case (Suc j')
    with "2.prems" have j': "j' < length rest" "rest ! j' = (u, c)" by simp_all
    show ?thesis
    proof (cases "int c0 > template_count")
      case True
      with "2.prems"(1) have i: "i < length ascii_letters"
        by (simp split: if_splits)
      with True "2.prems"(1) have l: "templates_loop (Suc i) rest template_count
          (AList.update [ascii_letters ! i] u0 acc) = Inr T"
        by simp
      from "2.IH"(1) [OF True i l j' "2.prems"(4)] Suc show ?thesis by simp
    next
      case False
      with "2.prems"(1) have l: "templates_loop (Suc i) rest template_count acc = Inr T"
        by simp
      from "2.IH"(2) [OF False l j' "2.prems"(4)] Suc show ?thesis by simp
    qed
  qed
qed

lemma disjoint_insert: "A \<subseteq> insert u B \<Longrightarrow> u \<notin> C \<Longrightarrow> B \<inter> C = {} \<Longrightarrow> A \<inter> C = {}"
  by blast

lemma distinct_values_update:
  "distinct (map snd al) \<Longrightarrow> v \<notin> snd ` set al \<Longrightarrow> distinct (map snd (AList.update k v al))
     \<and> snd ` set (AList.update k v al) \<subseteq> insert v (snd ` set al)"
  by (induction al) (auto simp add: image_iff)

lemma templates_loop_values:
  "templates_loop i cs tc acc = Inr T \<Longrightarrow> distinct (map snd acc) \<Longrightarrow> distinct (map fst cs)
   \<Longrightarrow> snd ` set acc \<inter> fst ` set cs = {}
   \<Longrightarrow> distinct (map snd T)"
proof (induction i cs tc acc rule: templates_loop.induct)
  case (1 i template_count acc)
  then show ?case by simp
next
  case (2 i u c rest template_count acc)
  show ?case
  proof (cases "int c > template_count")
    case True
    with "2.prems"(1) have i: "i < length ascii_letters"
      by (simp split: if_splits)
    with True "2.prems"(1) have l: "templates_loop (Suc i) rest template_count
        (AList.update [ascii_letters ! i] u acc) = Inr T"
      by simp
    from "2.prems"(4) have "u \<notin> snd ` set acc" by auto
    from distinct_values_update [OF "2.prems"(2) this, of "[ascii_letters ! i]"]
    have d: "distinct (map snd (AList.update [ascii_letters ! i] u acc))"
      and sub: "snd ` set (AList.update [ascii_letters ! i] u acc) \<subseteq> insert u (snd ` set acc)"
      by simp_all
    from "2.prems"(3) have dr: "distinct (map fst rest)" and nu: "u \<notin> fst ` set rest" by auto
    from "2.prems"(4) have "snd ` set acc \<inter> fst ` set rest = {}" by auto
    with sub nu
    have "snd ` set (AList.update [ascii_letters ! i] u acc) \<inter> fst ` set rest = {}"
      by (rule disjoint_insert)
    with "2.IH"(1) [OF True i l d dr] show ?thesis by simp
  next
    case False
    with "2.prems"(1) have l: "templates_loop (Suc i) rest template_count acc = Inr T"
      by simp
    from "2.prems"(3,4) have "distinct (map fst rest)" "snd ` set acc \<inter> fst ` set rest = {}"
      by auto
    with "2.IH"(2) [OF False l "2.prems"(2)] show ?thesis by simp
  qed
qed


lemma distinct_values_unique:
  "distinct (map snd T) \<Longrightarrow> (a, u) \<in> set T \<Longrightarrow> (b, u) \<in> set T \<Longrightarrow> a = b"
  by (induction T) (auto simp add: image_iff)

lemma distinct_count_one: "distinct xs \<Longrightarrow> x \<in> set xs \<Longrightarrow> count_list xs x = 1"
  by (induction xs) auto

lemma invert_fold_lookup:
  "(\<forall>s'. (s', u) \<in> set T \<longrightarrow> s' = s) \<Longrightarrow>
   map_of (fold (\<lambda>(k, v). AList.update v k) T acc) u
     = (if (s, u) \<in> set T then Some s else map_of acc u)"
proof (induction T arbitrary: acc)
  case Nil
  then show ?case by simp
next
  case (Cons p T)
  obtain k v where p: "p = (k, v)" by (cases p)
  from Cons.prems have u: "\<forall>s'. (s', u) \<in> set T \<longrightarrow> s' = s" by simp
  show ?case
  proof (cases "v = u")
    case True
    with Cons.prems p have "k = s" by simp
    with True p Cons.IH [OF u, of "AList.update v k acc"] show ?thesis
      by (simp add: update_conv')
  next
    case False
    with p Cons.IH [OF u, of "AList.update v k acc"] show ?thesis
      by (simp add: update_conv')
  qed
qed

lemma invert_lookup:
  "distinct (map snd T) \<Longrightarrow> (s, u) \<in> set T \<Longrightarrow> map_of (invert T) u = Some s"
proof -
  assume d: "distinct (map snd T)" and m: "(s, u) \<in> set T"
  have "\<forall>s'. (s', u) \<in> set T \<longrightarrow> s' = s"
    using distinct_values_unique [OF d _ m] by blast
  from invert_fold_lookup [OF this, of "[]"] m show ?thesis
    by (simp add: invert_def)
qed

subsection \<open>The loop over the mapping\<close>

lemma consolidate_loop_other:
  "consolidate_loop f thr tinv rest acc = Inr out \<Longrightarrow> k \<notin> fst ` set rest
   \<Longrightarrow> map_of out k = map_of acc k"
proof (induction f thr tinv rest acc rule: consolidate_loop.induct)
  case (1 cat_file thr tinv out)
  then show ?case by simp
next
  case (2 cat_file thr tinv k' v rest acc)
  from "2.prems"(1) obtain v' where v': "consolidate_entry cat_file thr tinv v = Inr v'"
    and l: "consolidate_loop cat_file thr tinv rest (AList.update k' v' acc) = Inr out"
    by (auto split: sum.splits)
  from "2.prems"(2) have "k \<noteq> k'" "k \<notin> fst ` set rest" by auto
  with "2.IH" [OF v' l] show ?case by (simp add: update_conv')
qed

lemma consolidate_loop_entry:
  "consolidate_loop f thr tinv m acc = Inr out \<Longrightarrow> distinct (map fst m) \<Longrightarrow> (k, v) \<in> set m
   \<Longrightarrow> \<exists>v'. consolidate_entry f thr tinv v = Inr v' \<and> map_of out k = Some v'"
proof (induction f thr tinv m acc rule: consolidate_loop.induct)
  case (1 cat_file thr tinv out)
  then show ?case by simp
next
  case (2 cat_file thr tinv k' w rest acc)
  from "2.prems"(1) obtain w' where w': "consolidate_entry cat_file thr tinv w = Inr w'"
    and l: "consolidate_loop cat_file thr tinv rest (AList.update k' w' acc) = Inr out"
    by (auto split: sum.splits)
  from "2.prems"(2) have d: "distinct (map fst rest)" and fresh: "k' \<notin> fst ` set rest" by auto
  show ?case
  proof (cases "(k, v) \<in> set rest")
    case True
    from "2.IH" [OF w' l d True] show ?thesis .
  next
    case False
    with "2.prems"(3) have e: "k = k'" "v = w" by auto
    from consolidate_loop_other [OF l fresh] have "map_of out k' = Some w'"
      by (simp add: update_conv')
    with e w' show ?thesis by simp
  qed
qed


subsection \<open>Templating\<close>

text \<open>
  C6, the claim as stated fails: the loop of \<open>_consolidate\<close> first replaces every list
  whose length is below \<open>inline_threashold\<close> by the bytes it points to, and only the lists
  that remain are rewritten. Six entries of length 10 that name one source, with the
  default thresholds: the source gets the symbol \<open>a\<close>, and none of the six entries
  carries the placeholder.
\<close>

theorem small_refs_inlined_not_templated:
  "consolidate ten_bytes (six_refs 10) 100 5
     = Inr (Version1 [(''a'', ''s3://bucket/a.h5'')]
              [(''v/0'', Str ''0123456789''), (''v/1'', Str ''0123456789''),
               (''v/2'', Str ''0123456789''), (''v/3'', Str ''0123456789''),
               (''v/4'', Str ''0123456789''), (''v/5'', Str ''0123456789'')])"
  by code_simp

text \<open>
  C6, amended. Let the mapping have distinct keys and let \<open>_consolidate\<close> return. A source
  identifier that occurs in more than \<open>template_count\<close> lists of the mapping stands at some
  position \<open>i\<close> among the distinct identifiers in the order of their first occurrence;
  \<open>i\<close> is below 52, the templates table binds the \<open>i\<close>-th ASCII letter to the identifier,
  the identifier occurs exactly once among the values of the table, and every list that
  names the identifier and whose length is not below \<open>inline_threashold\<close> has its first
  element replaced by the placeholder of that letter, offset and length unchanged.
\<close>

theorem consolidate_templates:
  assumes ok: "consolidate cat_file mapping thr tc = Inr (Version1 templates out)"
    and dist: "distinct (map fst mapping)"
    and occ: "u \<in> set (ref_urls mapping)"
    and many: "int (count_list (ref_urls mapping) u) > tc"
  shows "\<exists>i. index_of u (first_seen (ref_urls mapping)) = Some i
           \<and> i < length ascii_letters
           \<and> map_of templates [ascii_letters ! i] = Some u
           \<and> count_list (map snd templates) u = 1
           \<and> (\<forall>k off sz. (k, Ref u off sz) \<in> set mapping \<and> \<not> int sz < thr \<longrightarrow>
                 map_of out k = Some (Ref (''{{'' @ [ascii_letters ! i] @ ''}}'') off sz))"
proof -
  let ?cs = "counter (ref_urls mapping)"
  from ok have T: "templates_loop 0 ?cs tc [] = Inr templates"
    and L: "consolidate_loop cat_file thr (invert templates) mapping [] = Inr out"
    by (auto simp add: consolidate_def split: sum.splits)
  from counter_member [OF occ] obtain i where i: "i < length ?cs"
    and nth: "?cs ! i = (u, count_list (ref_urls mapping) u)"
    by (auto simp add: in_set_conv_nth)
  from templates_loop_assigns [OF T i nth many]
  have i52: "i < 52" and sym: "map_of templates [ascii_letters ! i] = Some u"
    by simp_all
  have "index_of (map fst ?cs ! i) (map fst ?cs) = Some i"
    using counter_distinct i by (intro index_of_nth) simp_all
  with i nth have idx: "index_of u (first_seen (ref_urls mapping)) = Some i"
    by (simp add: counter_keys [symmetric])
  have dv: "distinct (map snd templates)"
    using templates_loop_values [OF T _ counter_distinct] by simp
  from sym have mem: "([ascii_letters ! i], u) \<in> set templates"
    by (rule map_of_SomeD)
  then have "u \<in> set (map snd templates)" by force
  with dv have once: "count_list (map snd templates) u = 1"
    by (rule distinct_count_one)
  have inv: "map_of (invert templates) u = Some [ascii_letters ! i]"
    using dv mem by (rule invert_lookup)
  have refs: "map_of out k = Some (Ref (''{{'' @ [ascii_letters ! i] @ ''}}'') off sz)"
    if "(k, Ref u off sz) \<in> set mapping" "\<not> int sz < thr" for k off sz
  proof -
    from consolidate_loop_entry [OF L dist that(1)] obtain v'
      where "consolidate_entry cat_file thr (invert templates) (Ref u off sz) = Inr v'"
        and "map_of out k = Some v'"
      by blast
    with that(2) inv show ?thesis by simp
  qed
  from idx i52 sym once refs show ?thesis
    by (simp add: ascii_letters_length)
qed

theorem consolidate_templates_witness:
  "consolidate ten_bytes (six_refs 100) 100 5
     = Inr (Version1 [(''a'', ''s3://bucket/a.h5'')]
              [(''v/0'', Ref ''{{a}}'' 0 100), (''v/1'', Ref ''{{a}}'' 1000 100),
               (''v/2'', Ref ''{{a}}'' 2000 100), (''v/3'', Ref ''{{a}}'' 3000 100),
               (''v/4'', Ref ''{{a}}'' 4000 100), (''v/5'', Ref ''{{a}}'' 5000 100)])
   \<and> count_list (ref_urls (six_refs 100)) ''s3://bucket/a.h5'' = 6
   \<and> (\<exists>i. index_of ''s3://bucket/a.h5'' (first_seen (ref_urls (six_refs 100))) = Some i
          \<and> i < length ascii_letters
          \<and> map_of [(''a'', ''s3://bucket/a.h5'')] [ascii_letters ! i] = Some ''s3://bucket/a.h5''
          \<and> count_list (map snd [(''a'', ''s3://bucket/a.h5'')]) ''s3://bucket/a.h5'' = 1)"
proof -
  let ?out = "[(''v/0'', Ref ''{{a}}'' 0 100), (''v/1'', Ref ''{{a}}'' 1000 100),
               (''v/2'', Ref ''{{a}}'' 2000 100), (''v/3'', Ref ''{{a}}'' 3000 100),
               (''v/4'', Ref ''{{a}}'' 4000 100), (''v/5'', Ref ''{{a}}'' 5000 100)]"
  have ok: "consolidate ten_bytes (six_refs 100) 100 5
     = Inr (Version1 [(''a'', ''s3://bucket/a.h5'')] ?out)"
    by code_simp
  have dist: "distinct (map fst (six_refs 100))"
    by (simp add: six_refs_def)
  have urls: "ref_urls (six_refs 100)
      = [''s3://bucket/a.h5'', ''s3://bucket/a.h5'', ''s3://bucket/a.h5'',
         ''s3://bucket/a.h5'', ''s3://bucket/a.h5'', ''s3://bucket/a.h5'']"
    by (simp add: six_refs_def)
  have occ: "''s3://bucket/a.h5'' \<in> set (ref_urls (six_refs 100))"
    by (simp add: urls)
  have cnt: "count_list (ref_urls (six_refs 100)) ''s3://bucket/a.h5'' = 6"
    by (simp add: urls)
  then have many: "int (count_list (ref_urls (six_refs 100)) ''s3://bucket/a.h5'') > 5"
    by simp
  from consolidate_templates [OF ok dist occ many] ok cnt show ?thesis
    by blast
qed

end
